theory Spec2Isabelle
  imports Complex_Main "HOL-Library.AList"
begin

section \<open>Python values and the environment\<close>

text \<open>
  The supervisor is Python code that talks to the operating system (child processes,
  sockets, the clock) and to an HTTP registry. Everything outside the Python code is an
  \<open>environment\<close>: a record of functions over an abstract world \<open>'w\<close>. Every call takes the
  world and returns the answer together with the next world, so that the same question
  may be answered differently later (a port that opens, a process that dies). The
  theorems quantify over every environment.
\<close>

text \<open>Subclasses of Python's \<open>Exception\<close> that the source names, and the rest.\<close>

datatype exn = ProxyError | ConnectionError | Timeout | ValueError | OtherException

text \<open>\<open>range(n)\<close> for a Python int: empty when \<open>n \<le> 0\<close>.\<close>

definition py_range :: "int \<Rightarrow> int list" where
  "py_range n = map int [0..<nat n]"

text \<open>\<open>str(i)\<close> and the \<open>{i}\<close> of an f-string for an int.\<close>

fun digits10 :: "nat \<Rightarrow> string" where
  "digits10 n =
     (if n < 10 then [''0123456789'' ! n]
      else digits10 (n div 10) @ [''0123456789'' ! (n mod 10)])"

declare digits10.simps [simp del]

definition str :: "int \<Rightarrow> string" where
  "str i = (if i < 0 then CHR ''-'' # digits10 (nat (- i)) else digits10 (nat i))"

text \<open>Truthiness of an optional string (\<open>None\<close> and the empty string are falsy).\<close>

definition truthy :: "string option \<Rightarrow> bool" where
  "truthy v = (case v of None \<Rightarrow> False | Some s \<Rightarrow> s \<noteq> [])"

subsection \<open>HTTP as the registry client sees it\<close>

datatype http_method = GET | POST | DELETE

text \<open>
  The JSON bodies the client sends: the login form, and the outbound of
  \<open>add_socks5_outbound\<close> (host, port and the remark; the protocol \<open>socks\<close> and the network
  \<open>tcp\<close> are constants of the source).
\<close>

datatype payload = NoPayload | LoginPayload string string | OutboundPayload string int string

record http_request =
  http_verb :: http_method
  url :: string
  json_payload :: payload
  authorization :: "string option"

text \<open>
  What the client reads of a decoded JSON body. \<open>success\<close> is the truthiness of
  \<open>data.get("success")\<close>; \<open>token\<close> is \<open>data["token"]\<close> when the key is present;
  \<open>body_id\<close> is \<open>data.get("id")\<close>; \<open>obj_id\<close> is \<open>data.get("obj", {}).get("id")\<close>, which raises
  when \<open>obj\<close> is present and not a dict; \<open>listing\<close> is the list that \<open>list_outbounds\<close>
  returns for this body. Identifiers are kept as their text.
\<close>

datatype obj_view = ObjRaises | ObjId "string option"

record body =
  success :: bool
  token :: "string option"
  body_id :: "string option"
  obj_id :: obj_view
  listing :: "string list"

text \<open>
  A response: \<open>json\<close> is \<open>None\<close> when \<open>response.json()\<close> raises or does not give a dict
  (the first access then raises).
\<close>

record http_response =
  status_code :: int
  json :: "body option"
  session_cookie :: bool

subsection \<open>The environment\<close>

text \<open>
  \<^item> \<open>popen\<close>: \<open>subprocess.Popen(cmd, ...)\<close>; \<open>None\<close> when it raises, else the handle,
    identified with the child's pid.
  \<^item> \<open>poll\<close>: \<open>process.poll() is not None\<close> (the child has exited).
  \<^item> \<open>terminate\<close>: \<open>process.terminate()\<close>, \<open>wait(timeout=5)\<close>, \<open>kill()\<close> on timeout.
  \<^item> \<open>killpg\<close>: \<open>os.getpgid\<close>, \<open>os.killpg(SIGTERM)\<close>, the wait, \<open>SIGKILL\<close> on timeout;
    every exception of this block is swallowed by the source.
  \<^item> \<open>pid_exists\<close>: \<open>psutil.pid_exists(pid)\<close>.
  \<^item> \<open>connect_ex\<close>: the body of the \<open>try\<close> of \<open>is_port_listening\<close> (socket, settimeout,
    connect_ex, close): the exception raised, or the code \<open>connect_ex\<close> returned.
  \<^item> \<open>requests_get\<close>: \<open>requests.get(test_url, proxies=...)\<close> through the SOCKS5 proxy:
    the exception raised, or \<open>()\<close> for any response.
  \<^item> \<open>session_request\<close>: a request of the registry client's session; \<open>None\<close> when it
    raises.
  \<^item> \<open>sleep\<close>: \<open>time.sleep(d)\<close> for \<open>d \<ge> 0\<close>; \<open>clock\<close>: \<open>time.time()\<close>.
\<close>

record 'w environment =
  popen :: "'w \<Rightarrow> string list \<Rightarrow> nat option \<times> 'w"
  poll :: "'w \<Rightarrow> nat \<Rightarrow> bool \<times> 'w"
  terminate :: "'w \<Rightarrow> nat \<Rightarrow> 'w"
  killpg :: "'w \<Rightarrow> nat \<Rightarrow> 'w"
  pid_exists :: "'w \<Rightarrow> nat \<Rightarrow> (exn + bool) \<times> 'w"
  connect_ex :: "'w \<Rightarrow> string \<Rightarrow> int \<Rightarrow> (exn + int) \<times> 'w"
  requests_get :: "'w \<Rightarrow> string \<Rightarrow> string \<Rightarrow> (exn + unit) \<times> 'w"
  session_request :: "'w \<Rightarrow> http_request \<Rightarrow> http_response option \<times> 'w"
  sleep :: "'w \<Rightarrow> rat \<Rightarrow> 'w"
  clock :: "'w \<Rightarrow> int"

text \<open>\<open>time.sleep(d)\<close> raises \<open>ValueError\<close> for a negative argument.\<close>

definition time_sleep :: "'w environment \<Rightarrow> 'w \<Rightarrow> rat \<Rightarrow> exn + 'w" where
  "time_sleep env w d = (if d < 0 then Inl ValueError else Inr (sleep env w d))"

section \<open>health_checker.py\<close>

text \<open>
  A probe returns \<open>Inl e\<close> when exception \<open>e\<close> leaves the method and \<open>Inr b\<close> when it returns
  \<open>b\<close>. The \<open>try\<close>/\<open>except Exception\<close> of the source is the case distinction on the
  environment's answer.
\<close>

definition is_port_listening ::
  "'w environment \<Rightarrow> 'w \<Rightarrow> string \<Rightarrow> int \<Rightarrow> (exn + bool) \<times> 'w" where
  "is_port_listening env w host port =
     (case connect_ex env w host port of
        (Inr result, w') \<Rightarrow> (Inr (result = 0), w')
      | (Inl e, w') \<Rightarrow> (Inr False, w'))"

definition proxy_url :: "string \<Rightarrow> int \<Rightarrow> string" where
  "proxy_url host port = ''socks5://'' @ host @ '':'' @ str port"

definition test_socks5_connectivity ::
  "'w environment \<Rightarrow> 'w \<Rightarrow> string \<Rightarrow> int \<Rightarrow> string \<Rightarrow> (exn + bool) \<times> 'w" where
  "test_socks5_connectivity env w host port test_url =
     (case requests_get env w test_url (proxy_url host port) of
        (Inr response, w') \<Rightarrow> (Inr True, w')
      | (Inl ProxyError, w') \<Rightarrow> (Inr False, w')
      | (Inl ConnectionError, w') \<Rightarrow> (Inr False, w')
      | (Inl Timeout, w') \<Rightarrow> (Inr False, w')
      | (Inl e, w') \<Rightarrow> (Inr False, w'))"

text \<open>\<open>check_tunnel_health\<close> has no handler of its own: an exception of a callee would pass through.\<close>

definition check_tunnel_health ::
  "'w environment \<Rightarrow> 'w \<Rightarrow> string \<Rightarrow> int \<Rightarrow> string \<Rightarrow> (exn + bool) \<times> 'w" where
  "check_tunnel_health env w host socks5_port test_url =
     (case is_port_listening env w host socks5_port of
        (Inl e, w1) \<Rightarrow> (Inl e, w1)
      | (Inr False, w1) \<Rightarrow> (Inr False, w1)
      | (Inr True, w1) \<Rightarrow>
          (case test_socks5_connectivity env w1 host socks5_port test_url of
             (Inl e, w2) \<Rightarrow> (Inl e, w2)
           | (Inr False, w2) \<Rightarrow> (Inr False, w2)
           | (Inr True, w2) \<Rightarrow> (Inr True, w2)))"

definition check_dnstt_port ::
  "'w environment \<Rightarrow> 'w \<Rightarrow> string \<Rightarrow> int \<Rightarrow> (exn + bool) \<times> 'w" where
  "check_dnstt_port env w host port = is_port_listening env w host port"

text \<open>The default \<open>test_url\<close> of the probes.\<close>

definition default_test_url :: string where
  "default_test_url = ''http://www.google.com''"

section \<open>xui_client.py\<close>

text \<open>
  The mutable attributes of \<open>XUIClient\<close>. The session's \<open>Authorization\<close> header is
  \<open>Bearer\<close> followed by \<open>auth_token\<close> once a login stored one; its cookies live in the
  world.
\<close>

record XUIClient =
  api_url :: string
  username :: string
  password :: string
  auth_token :: "string option"
  authenticated :: bool

definition get_url :: "XUIClient \<Rightarrow> string \<Rightarrow> string" where
  "get_url c endpoint = api_url c @ endpoint"

definition session_headers :: "XUIClient \<Rightarrow> string option" where
  "session_headers c = map_option (\<lambda>t. ''Bearer '' @ t) (auth_token c)"

definition login_request :: "XUIClient \<Rightarrow> http_request" where
  "login_request c =
     \<lparr>http_verb = POST, url = get_url c ''/login'',
      json_payload = LoginPayload (username c) (password c),
      authorization = session_headers c\<rparr>"

definition login :: "'w environment \<Rightarrow> XUIClient \<Rightarrow> 'w \<Rightarrow> bool \<times> XUIClient \<times> 'w" where
  "login env c w =
     (case session_request env w (login_request c) of
        (None, w') \<Rightarrow> (False, c, w')
      | (Some response, w') \<Rightarrow>
          if status_code response = 200 then
            (case json response of
               None \<Rightarrow> (False, c, w')
             | Some data \<Rightarrow>
                 if success data \<or> token data \<noteq> None \<or> session_cookie response then
                   (True,
                    (case token data of
                       Some t \<Rightarrow> c\<lparr>auth_token := Some t\<rparr>
                     | None \<Rightarrow> c)\<lparr>authenticated := True\<rparr>,
                    w')
                 else (False, c, w'))
          else (False, c, w'))"

definition ensure_authenticated ::
  "'w environment \<Rightarrow> XUIClient \<Rightarrow> 'w \<Rightarrow> bool \<times> XUIClient \<times> 'w" where
  "ensure_authenticated env c w =
     (if \<not> authenticated c then login env c w else (True, c, w))"

text \<open>
  \<open>add_socks5_outbound\<close>, \<open>remove_outbound\<close> and \<open>reload_xray\<close> are the same two nested
  loops in the source: \<open>for attempt in range(retry_count)\<close> around
  \<open>for endpoint in endpoints\<close>, inside a \<open>try\<close>. They differ in the request sent and in the
  \<open>if\<close>/\<open>elif\<close> chain over the status code, which is the \<open>verdict\<close> on a response:
  return a value, re-authenticate (401), go on to the next endpoint, or raise (a body that
  cannot be read).
\<close>

datatype 'a verdict = Return 'a | Reauth | Next | Raise

text \<open>How one pass over the endpoints ends.\<close>

datatype 'a attempt = Returned 'a | Exhausted | Broke | Raised

text \<open>
  The inner loop. On 401: \<open>self._authenticated = False\<close>, then
  \<open>if not self.ensure_authenticated(): break\<close>, then \<open>continue\<close> (with the next endpoint).
\<close>

fun try_endpoints ::
  "'w environment \<Rightarrow> (http_response \<Rightarrow> 'a verdict) \<Rightarrow> (XUIClient \<Rightarrow> string \<Rightarrow> http_request) \<Rightarrow>
   string list \<Rightarrow> XUIClient \<Rightarrow> 'w \<Rightarrow> 'a attempt \<times> XUIClient \<times> 'w" where
  "try_endpoints env verdict request [] c w = (Exhausted, c, w)"
| "try_endpoints env verdict request (endpoint # endpoints) c w =
     (case session_request env w (request c endpoint) of
        (None, w1) \<Rightarrow> (Raised, c, w1)
      | (Some response, w1) \<Rightarrow>
          (case verdict response of
             Return x \<Rightarrow> (Returned x, c, w1)
           | Raise \<Rightarrow> (Raised, c, w1)
           | Reauth \<Rightarrow>
               (case ensure_authenticated env (c\<lparr>authenticated := False\<rparr>) w1 of
                  (False, c2, w2) \<Rightarrow> (Broke, c2, w2)
                | (True, c2, w2) \<Rightarrow> try_endpoints env verdict request endpoints c2 w2)
           | Next \<Rightarrow> try_endpoints env verdict request endpoints c w1))"

text \<open>
  The outer loop over the attempts still to run. After an attempt that did not return,
  on either path (the loop ran out or broke, or the \<open>except\<close> clause caught an
  exception): \<open>if attempt < retry_count - 1: time.sleep(1)\<close>.
\<close>

fun retry_loop ::
  "'w environment \<Rightarrow> (XUIClient \<Rightarrow> 'w \<Rightarrow> 'a attempt \<times> XUIClient \<times> 'w) \<Rightarrow> int \<Rightarrow>
   int list \<Rightarrow> XUIClient \<Rightarrow> 'w \<Rightarrow> 'a option \<times> XUIClient \<times> 'w" where
  "retry_loop env run retry_count [] c w = (None, c, w)"
| "retry_loop env run retry_count (attempt # attempts) c w =
     (case run c w of
        (Returned x, c1, w1) \<Rightarrow> (Some x, c1, w1)
      | (outcome, c1, w1) \<Rightarrow>
          retry_loop env run retry_count attempts c1
            (if attempt < retry_count - 1 then sleep env w1 1 else w1))"

definition with_retries ::
  "'w environment \<Rightarrow> (XUIClient \<Rightarrow> 'w \<Rightarrow> 'a attempt \<times> XUIClient \<times> 'w) \<Rightarrow> int \<Rightarrow>
   XUIClient \<Rightarrow> 'w \<Rightarrow> 'a option \<times> XUIClient \<times> 'w" where
  "with_retries env run retry_count c w =
     (case ensure_authenticated env c w of
        (False, c1, w1) \<Rightarrow> (None, c1, w1)
      | (True, c1, w1) \<Rightarrow> retry_loop env run retry_count (py_range retry_count) c1 w1)"

subsection \<open>add_socks5_outbound\<close>

definition add_endpoints :: "string list" where
  "add_endpoints = [''/xui/API/outbounds/add'', ''/xui/API/inbounds/add'', ''/API/outbounds/add'']"

text \<open>The remark sent is \<open>f"{remark}-{host}:{port}"\<close>.\<close>

definition add_request :: "string \<Rightarrow> int \<Rightarrow> string \<Rightarrow> XUIClient \<Rightarrow> string \<Rightarrow> http_request" where
  "add_request host port remark c endpoint =
     \<lparr>http_verb = POST, url = get_url c endpoint,
      json_payload = OutboundPayload host port (remark @ ''-'' @ host @ '':'' @ str port),
      authorization = session_headers c\<rparr>"

text \<open>
  \<open>outbound_id = data.get("id") or data.get("obj", {}).get("id") or str(port)\<close> for
  status 200 or 201.
\<close>

definition add_verdict :: "int \<Rightarrow> http_response \<Rightarrow> string verdict" where
  "add_verdict port response =
     (if status_code response = 200 \<or> status_code response = 201 then
        (case json response of
           None \<Rightarrow> Raise
         | Some data \<Rightarrow>
             if truthy (body_id data) then Return (the (body_id data))
             else (case obj_id data of
                     ObjRaises \<Rightarrow> Raise
                   | ObjId v \<Rightarrow> if truthy v then Return (the v) else Return (str port)))
      else if status_code response = 401 then Reauth
      else Next)"

definition add_socks5_outbound ::
  "'w environment \<Rightarrow> XUIClient \<Rightarrow> 'w \<Rightarrow> string \<Rightarrow> int \<Rightarrow> string \<Rightarrow> int \<Rightarrow>
   string option \<times> XUIClient \<times> 'w" where
  "add_socks5_outbound env c w host port remark retry_count =
     with_retries env
       (try_endpoints env (add_verdict port) (add_request host port remark) add_endpoints)
       retry_count c w"

subsection \<open>remove_outbound\<close>

definition remove_endpoints :: "string \<Rightarrow> string list" where
  "remove_endpoints outbound_id =
     [''/xui/API/outbounds/'' @ outbound_id, ''/xui/API/inbounds/'' @ outbound_id,
      ''/API/outbounds/'' @ outbound_id]"

definition remove_request :: "XUIClient \<Rightarrow> string \<Rightarrow> http_request" where
  "remove_request c endpoint =
     \<lparr>http_verb = DELETE, url = get_url c endpoint, json_payload = NoPayload,
      authorization = session_headers c\<rparr>"

definition remove_verdict :: "http_response \<Rightarrow> bool verdict" where
  "remove_verdict response =
     (if status_code response = 200 \<or> status_code response = 204 then Return True
      else if status_code response = 404 then Return True
      else if status_code response = 401 then Reauth
      else Next)"

definition remove_outbound ::
  "'w environment \<Rightarrow> XUIClient \<Rightarrow> 'w \<Rightarrow> string \<Rightarrow> int \<Rightarrow> bool \<times> XUIClient \<times> 'w" where
  "remove_outbound env c w outbound_id retry_count =
     (case with_retries env
             (try_endpoints env remove_verdict remove_request (remove_endpoints outbound_id))
             retry_count c w of
        (Some r, c', w') \<Rightarrow> (r, c', w')
      | (None, c', w') \<Rightarrow> (False, c', w'))"

subsection \<open>reload_xray\<close>

definition reload_endpoints :: "string list" where
  "reload_endpoints = [''/xui/API/setting/updateXrayConfig'', ''/xui/API/setting/reload'', ''/API/reload'']"

definition reload_request :: "XUIClient \<Rightarrow> string \<Rightarrow> http_request" where
  "reload_request c endpoint =
     \<lparr>http_verb = POST, url = get_url c endpoint, json_payload = NoPayload,
      authorization = session_headers c\<rparr>"

definition reload_verdict :: "http_response \<Rightarrow> bool verdict" where
  "reload_verdict response =
     (if status_code response = 200 \<or> status_code response = 204 then Return True
      else if status_code response = 401 then Reauth
      else Next)"

definition reload_xray ::
  "'w environment \<Rightarrow> XUIClient \<Rightarrow> 'w \<Rightarrow> int \<Rightarrow> bool \<times> XUIClient \<times> 'w" where
  "reload_xray env c w retry_count =
     (case with_retries env (try_endpoints env reload_verdict reload_request reload_endpoints)
             retry_count c w of
        (Some r, c', w') \<Rightarrow> (r, c', w')
      | (None, c', w') \<Rightarrow> (False, c', w'))"

subsection \<open>list_outbounds\<close>

text \<open>
  One \<open>try\<close> around one loop over the endpoints: no \<open>retry_count\<close>, no sleep, and no
  branch for status 401. An exception ends the loop and the method returns \<open>None\<close>.
\<close>

definition list_endpoints :: "string list" where
  "list_endpoints = [''/xui/API/outbounds'', ''/xui/API/inbounds'', ''/API/outbounds'']"

definition list_request :: "XUIClient \<Rightarrow> string \<Rightarrow> http_request" where
  "list_request c endpoint =
     \<lparr>http_verb = GET, url = get_url c endpoint, json_payload = NoPayload,
      authorization = session_headers c\<rparr>"

fun list_loop ::
  "'w environment \<Rightarrow> string list \<Rightarrow> XUIClient \<Rightarrow> 'w \<Rightarrow> string list option \<times> XUIClient \<times> 'w" where
  "list_loop env [] c w = (None, c, w)"
| "list_loop env (endpoint # endpoints) c w =
     (case session_request env w (list_request c endpoint) of
        (None, w1) \<Rightarrow> (None, c, w1)
      | (Some response, w1) \<Rightarrow>
          if status_code response = 200 then
            (case json response of
               None \<Rightarrow> (None, c, w1)
             | Some data \<Rightarrow> (Some (listing data), c, w1))
          else list_loop env endpoints c w1)"

definition list_outbounds ::
  "'w environment \<Rightarrow> XUIClient \<Rightarrow> 'w \<Rightarrow> string list option \<times> XUIClient \<times> 'w" where
  "list_outbounds env c w =
     (case ensure_authenticated env c w of
        (False, c1, w1) \<Rightarrow> (None, c1, w1)
      | (True, c1, w1) \<Rightarrow> list_loop env list_endpoints c1 w1)"

section \<open>tunnel_manager.py: data\<close>

datatype TunnelState = STARTING | RUNNING | FAILED | STOPPING | STOPPED

text \<open>
  The two dataclasses share six fields; they are the record \<open>tunnel\<close>, which
  \<open>DNSTTTunnel\<close> and \<open>SSHTunnel\<close> extend with their own. \<open>process\<close> is the \<open>Popen\<close> handle
  (identified with the child's pid), \<open>last_check\<close> a reading of the clock.
\<close>

record tunnel =
  tunnel_id :: int
  process :: "nat option"
  pid :: "nat option"
  state :: TunnelState
  restart_count :: int
  last_check :: int

record DNSTTTunnel = tunnel +
  local_port :: int

record SSHTunnel = tunnel +
  ssh_id :: int
  socks5_port :: int
  xui_outbound_id :: "string option"

text \<open>\<open>is_alive\<close> of both dataclasses.\<close>

definition is_alive :: "'w environment \<Rightarrow> 'w \<Rightarrow> nat option \<Rightarrow> bool \<times> 'w" where
  "is_alive env w p =
     (case p of
        None \<Rightarrow> (False, w)
      | Some n \<Rightarrow>
          (case pid_exists env w n of
             (Inr b, w') \<Rightarrow> (b, w')
           | (Inl e, w') \<Rightarrow> (False, w')))"

text \<open>The attributes that \<open>TunnelManager.__init__\<close> reads from the configuration and never changes.\<close>

record config =
  dnstt_path :: string
  dnstt_remote_ip :: string
  dnstt_port :: int
  dnstt_domain :: string
  dnstt_pubkey :: string
  ssh_user :: string
  ssh_key_path :: string
  ssh_server :: string
  dnstt_count :: int
  ssh_per_dnstt :: int
  dnstt_start_port :: int
  socks_start_port :: int
  socks_ports_per_tunnel :: int
  health_interval :: int
  max_retries :: int
  backoff_seconds :: rat

text \<open>
  The mutable attributes. The two dicts are association lists in insertion order
  (\<open>AList.update\<close> stores under a key as a dict does: in place, or at the end for a new
  key); \<open>shutdown_event\<close> is whether the event is set.
\<close>

record 'w TunnelManager =
  running :: bool
  shutdown_event :: bool
  dnstt_tunnels :: "(int \<times> DNSTTTunnel) list"
  ssh_tunnels :: "((int \<times> int) \<times> SSHTunnel) list"
  xui_client :: XUIClient
  world :: 'w

text \<open>A manager as \<open>__init__\<close> leaves it.\<close>

definition new_manager :: "XUIClient \<Rightarrow> 'w \<Rightarrow> 'w TunnelManager" where
  "new_manager c w =
     \<lparr>running = False, shutdown_event = False, dnstt_tunnels = [], ssh_tunnels = [],
      xui_client = c\<lparr>auth_token := None, authenticated := False\<rparr>, world = w\<rparr>"

text \<open>Assignments to the fields of the object stored under a key.\<close>

definition update_dnstt ::
  "int \<Rightarrow> (DNSTTTunnel \<Rightarrow> DNSTTTunnel) \<Rightarrow> 'w TunnelManager \<Rightarrow> 'w TunnelManager" where
  "update_dnstt k f m = m\<lparr>dnstt_tunnels := AList.map_entry k f (dnstt_tunnels m)\<rparr>"

definition update_ssh ::
  "int \<times> int \<Rightarrow> (SSHTunnel \<Rightarrow> SSHTunnel) \<Rightarrow> 'w TunnelManager \<Rightarrow> 'w TunnelManager" where
  "update_ssh k f m = m\<lparr>ssh_tunnels := AList.map_entry k f (ssh_tunnels m)\<rparr>"

section \<open>tunnel_manager.py: starting and stopping\<close>

text \<open>
  The readiness poll of both start methods: one check, then
  \<open>for _ in range(5): time.sleep(1); if listening: break\<close>, whose \<open>else\<close> branch is the
  result \<open>False\<close>.
\<close>

fun poll_port :: "'w environment \<Rightarrow> nat \<Rightarrow> int \<Rightarrow> 'w \<Rightarrow> (exn + bool) \<times> 'w" where
  "poll_port env 0 port w = (Inr False, w)"
| "poll_port env (Suc n) port w =
     (case is_port_listening env (sleep env w 1) ''127.0.0.1'' port of
        (Inl e, w') \<Rightarrow> (Inl e, w')
      | (Inr True, w') \<Rightarrow> (Inr True, w')
      | (Inr False, w') \<Rightarrow> poll_port env n port w')"

definition await_port :: "'w environment \<Rightarrow> int \<Rightarrow> 'w \<Rightarrow> (exn + bool) \<times> 'w" where
  "await_port env port w =
     (case is_port_listening env w ''127.0.0.1'' port of
        (Inl e, w') \<Rightarrow> (Inl e, w')
      | (Inr True, w') \<Rightarrow> (Inr True, w')
      | (Inr False, w') \<Rightarrow> poll_port env 5 port w')"

definition dnstt_cmd :: "config \<Rightarrow> int \<Rightarrow> string list" where
  "dnstt_cmd cfg port =
     [dnstt_path cfg, ''-udp'', dnstt_remote_ip cfg @ '':'' @ str (dnstt_port cfg),
      ''-pubkey'', dnstt_pubkey cfg, dnstt_domain cfg, ''127.0.0.1:'' @ str port]"

text \<open>
  \<open>start_dnstt_tunnel\<close>. The whole body is inside \<open>try\<close>/\<open>except Exception: return False\<close>;
  the record is written only on the last path, and only \<open>if tunnel_id in self.dnstt_tunnels\<close>.
\<close>

definition start_dnstt_tunnel ::
  "'w environment \<Rightarrow> config \<Rightarrow> int \<Rightarrow> int \<Rightarrow> 'w TunnelManager \<Rightarrow> bool \<times> 'w TunnelManager" where
  "start_dnstt_tunnel env cfg tid port m =
     (case popen env (world m) (dnstt_cmd cfg port) of
        (None, w1) \<Rightarrow> (False, m\<lparr>world := w1\<rparr>)
      | (Some p, w1) \<Rightarrow>
          (case poll env (sleep env w1 2) p of
             (True, w2) \<Rightarrow> (False, m\<lparr>world := w2\<rparr>)
           | (False, w2) \<Rightarrow>
               (case await_port env port w2 of
                  (Inl e, w3) \<Rightarrow> (False, m\<lparr>world := w3\<rparr>)
                | (Inr False, w3) \<Rightarrow> (False, m\<lparr>world := terminate env w3 p\<rparr>)
                | (Inr True, w3) \<Rightarrow>
                    (True,
                     update_dnstt tid
                       (\<lambda>t. t\<lparr>process := Some p, pid := Some p, state := RUNNING,
                              last_check := clock env w3\<rparr>)
                       (m\<lparr>world := w3\<rparr>)))))"

definition ssh_cmd :: "config \<Rightarrow> int \<Rightarrow> int \<Rightarrow> string list" where
  "ssh_cmd cfg port socks5 =
     [''ssh'', ''-i'', ssh_key_path cfg, ''-N'', ssh_user cfg @ ''@'' @ ssh_server cfg,
      ''-p'', str port, ''-D'', str socks5,
      ''-o'', ''ServerAliveInterval=60'', ''-o'', ''StrictHostKeyChecking=no'',
      ''-o'', ''BatchMode=yes'', ''-o'', ''UserKnownHostsFile=/dev/null'']"

definition ssh_remark :: "int \<Rightarrow> int \<Rightarrow> string" where
  "ssh_remark tid sid = ''DNSTT-'' @ str tid @ ''-SSH-'' @ str sid"

text \<open>
  \<open>start_ssh_tunnel\<close>: spawn, settle, readiness poll, then the registry
  (\<open>add_socks5_outbound\<close> and, \<open>if outbound_id\<close>, \<open>reload_xray\<close>, both with the default
  \<open>retry_count = 3\<close>), then the record. It does not look at the parent's record.
\<close>

definition start_ssh_tunnel ::
  "'w environment \<Rightarrow> config \<Rightarrow> int \<Rightarrow> int \<Rightarrow> int \<Rightarrow> int \<Rightarrow> 'w TunnelManager \<Rightarrow>
   bool \<times> 'w TunnelManager" where
  "start_ssh_tunnel env cfg tid sid port socks5 m =
     (case popen env (world m) (ssh_cmd cfg port socks5) of
        (None, w1) \<Rightarrow> (False, m\<lparr>world := w1\<rparr>)
      | (Some p, w1) \<Rightarrow>
          (case poll env (sleep env w1 2) p of
             (True, w2) \<Rightarrow> (False, m\<lparr>world := w2\<rparr>)
           | (False, w2) \<Rightarrow>
               (case await_port env socks5 w2 of
                  (Inl e, w3) \<Rightarrow> (False, m\<lparr>world := w3\<rparr>)
                | (Inr False, w3) \<Rightarrow> (False, m\<lparr>world := terminate env w3 p\<rparr>)
                | (Inr True, w3) \<Rightarrow>
                    (case add_socks5_outbound env (xui_client m) w3 ''127.0.0.1'' socks5
                            (ssh_remark tid sid) 3 of
                       (outbound_id, c4, w4) \<Rightarrow>
                         (case (if truthy outbound_id
                                then (case reload_xray env c4 w4 3 of (r, c5, w5) \<Rightarrow> (c5, w5))
                                else (c4, w4)) of
                            (c5, w5) \<Rightarrow>
                              (True,
                               update_ssh (tid, sid)
                                 (\<lambda>t. t\<lparr>process := Some p, pid := Some p, state := RUNNING,
                                        last_check := clock env w5,
                                        xui_outbound_id := outbound_id\<rparr>)
                                 (m\<lparr>xui_client := c5, world := w5\<rparr>)))))))"

text \<open>
  The block that stops the child of a record, guarded by
  \<open>if tunnel.process and tunnel.pid\<close>: \<open>if psutil.pid_exists(pid)\<close> the group is
  signalled; every exception is swallowed.
\<close>

definition kill_child :: "'w environment \<Rightarrow> 'w \<Rightarrow> nat option \<Rightarrow> nat option \<Rightarrow> 'w" where
  "kill_child env w proc p =
     (case (proc, p) of
        (Some h, Some n) \<Rightarrow>
          if n \<noteq> 0 then
            (case pid_exists env w n of
               (Inr True, w') \<Rightarrow> killpg env w' n
             | (other, w') \<Rightarrow> w')
          else w
      | other \<Rightarrow> w)"

text \<open>
  \<open>stop_ssh_tunnel\<close>: STOPPING, the registry (\<open>if ssh_tunnel.xui_outbound_id\<close>), the child,
  then STOPPED with the handle, the pid and the registry id cleared.
\<close>

definition stop_ssh_tunnel ::
  "'w environment \<Rightarrow> config \<Rightarrow> int \<Rightarrow> int \<Rightarrow> 'w TunnelManager \<Rightarrow> bool \<times> 'w TunnelManager" where
  "stop_ssh_tunnel env cfg tid sid m =
     (case map_of (ssh_tunnels m) (tid, sid) of
        None \<Rightarrow> (True, m)
      | Some ssh_tunnel \<Rightarrow>
          (case (if truthy (xui_outbound_id ssh_tunnel)
                 then (case remove_outbound env (xui_client m) (world m)
                              (the (xui_outbound_id ssh_tunnel)) 3 of
                         (r1, c1, w1) \<Rightarrow>
                           (case reload_xray env c1 w1 3 of (r2, c2, w2) \<Rightarrow> (c2, w2)))
                 else (xui_client m, world m)) of
             (c2, w2) \<Rightarrow>
               (True,
                update_ssh (tid, sid)
                  (\<lambda>t. t\<lparr>state := STOPPED, process := None, pid := None,
                         xui_outbound_id := None\<rparr>)
                  (update_ssh (tid, sid) (\<lambda>t. t\<lparr>state := STOPPING\<rparr>) m)
                    \<lparr>xui_client := c2,
                     world := kill_child env w2 (process ssh_tunnel) (pid ssh_tunnel)\<rparr>)))"

text \<open>
  \<open>stop_dnstt_tunnel\<close>: STOPPING, then \<open>stop_ssh_tunnel(tunnel_id, ssh.ssh_id)\<close> for every
  record whose key has this \<open>tunnel_id\<close>, then the child, then STOPPED. Stopping the
  children does not touch the parent's handle and pid, so they are read from the record
  found at entry.
\<close>

definition ssh_tunnels_to_stop :: "int \<Rightarrow> 'w TunnelManager \<Rightarrow> SSHTunnel list" where
  "ssh_tunnels_to_stop tid m = map snd (filter (\<lambda>(k, ssh). fst k = tid) (ssh_tunnels m))"

definition stop_dnstt_tunnel ::
  "'w environment \<Rightarrow> config \<Rightarrow> int \<Rightarrow> 'w TunnelManager \<Rightarrow> bool \<times> 'w TunnelManager" where
  "stop_dnstt_tunnel env cfg tid m =
     (case map_of (dnstt_tunnels m) tid of
        None \<Rightarrow> (True, m)
      | Some tunnel \<Rightarrow>
          (let m1 = update_dnstt tid (\<lambda>t. t\<lparr>state := STOPPING\<rparr>) m;
               m2 = fold (\<lambda>ssh s. snd (stop_ssh_tunnel env cfg tid (ssh_id ssh) s))
                      (ssh_tunnels_to_stop tid m1) m1;
               m3 = m2\<lparr>world := kill_child env (world m2) (process tunnel) (pid tunnel)\<rparr>
           in (True,
               update_dnstt tid (\<lambda>t. t\<lparr>state := STOPPED, process := None, pid := None\<rparr>) m3)))"

section \<open>tunnel_manager.py: the plan and start-up\<close>

text \<open>
  \<open>initialize_tunnels\<close> is three loops. The first two create the records: the DNSTT
  records with \<open>state=TunnelState.STARTING\<close>, the SSH records with
  \<open>state=TunnelState.STOPPED\<close>; the other fields take the dataclass defaults.
\<close>

definition new_dnstt :: "config \<Rightarrow> int \<Rightarrow> DNSTTTunnel" where
  "new_dnstt cfg tid =
     \<lparr>tunnel_id = tid, process = None, pid = None, state = STARTING, restart_count = 0,
      last_check = 0, local_port = dnstt_start_port cfg + tid\<rparr>"

definition new_ssh :: "config \<Rightarrow> int \<Rightarrow> int \<Rightarrow> SSHTunnel" where
  "new_ssh cfg tid sid =
     \<lparr>tunnel_id = tid, process = None, pid = None, state = STOPPED, restart_count = 0,
      last_check = 0, ssh_id = sid,
      socks5_port = socks_start_port cfg + tid * socks_ports_per_tunnel cfg + sid,
      xui_outbound_id = None\<rparr>"

definition create_dnstt_records :: "config \<Rightarrow> 'w TunnelManager \<Rightarrow> 'w TunnelManager" where
  "create_dnstt_records cfg m =
     fold (\<lambda>tid s. s\<lparr>dnstt_tunnels := AList.update tid (new_dnstt cfg tid) (dnstt_tunnels s)\<rparr>)
       (py_range (dnstt_count cfg)) m"

definition create_ssh_records :: "config \<Rightarrow> 'w TunnelManager \<Rightarrow> 'w TunnelManager" where
  "create_ssh_records cfg m =
     fold (\<lambda>tid. fold (\<lambda>sid s. s\<lparr>ssh_tunnels :=
                                    AList.update (tid, sid) (new_ssh cfg tid sid) (ssh_tunnels s)\<rparr>)
                    (py_range (ssh_per_dnstt cfg)))
       (py_range (dnstt_count cfg)) m"

text \<open>
  The third loop (\<open>start_parent\<close> is its body, \<open>start_child\<close> the body of the loop
  inside) starts each parent and, when that succeeded, its children in \<open>ssh_id\<close> order. \<open>self.dnstt_tunnels[tunnel_id]\<close> and \<open>self.ssh_tunnels[key]\<close> find the records the
  first two loops stored; the \<open>None\<close> branches stand for the \<open>KeyError\<close> that cannot occur.
\<close>

definition start_child ::
  "'w environment \<Rightarrow> config \<Rightarrow> int \<Rightarrow> int \<Rightarrow> int \<Rightarrow> 'w TunnelManager \<Rightarrow> 'w TunnelManager" where
  "start_child env cfg tid port sid s =
     (case map_of (ssh_tunnels s) (tid, sid) of
        None \<Rightarrow> s
      | Some ssh_tunnel \<Rightarrow>
          (case start_ssh_tunnel env cfg tid sid port (socks5_port ssh_tunnel) s of
             (ok, s') \<Rightarrow> s'\<lparr>world := sleep env (world s') (1 / 2)\<rparr>))"

definition start_children ::
  "'w environment \<Rightarrow> config \<Rightarrow> int \<Rightarrow> int \<Rightarrow> 'w TunnelManager \<Rightarrow> 'w TunnelManager" where
  "start_children env cfg tid port m =
     fold (start_child env cfg tid port) (py_range (ssh_per_dnstt cfg)) m"

definition start_parent ::
  "'w environment \<Rightarrow> config \<Rightarrow> int \<Rightarrow> 'w TunnelManager \<Rightarrow> 'w TunnelManager" where
  "start_parent env cfg tid s =
     (case map_of (dnstt_tunnels s) tid of
        None \<Rightarrow> s
      | Some tunnel \<Rightarrow>
          (case start_dnstt_tunnel env cfg tid (local_port tunnel) s of
             (False, s') \<Rightarrow> s'
           | (True, s') \<Rightarrow>
               start_children env cfg tid (local_port tunnel)
                 (s'\<lparr>world := sleep env (world s') 1\<rparr>)))"

definition start_all :: "'w environment \<Rightarrow> config \<Rightarrow> 'w TunnelManager \<Rightarrow> 'w TunnelManager" where
  "start_all env cfg m = fold (start_parent env cfg) (py_range (dnstt_count cfg)) m"

definition initialize_tunnels ::
  "'w environment \<Rightarrow> config \<Rightarrow> 'w TunnelManager \<Rightarrow> 'w TunnelManager" where
  "initialize_tunnels env cfg m = start_all env cfg (create_ssh_records cfg (create_dnstt_records cfg m))"

section \<open>tunnel_manager.py: the monitor loop\<close>

text \<open>
  One iteration of a \<open>for\<close> loop of the monitor returns the exception that left it, if
  any, with the state as the iteration left it: the \<open>try\<close> of \<open>monitor_loop\<close> is around the
  whole pass, so an exception ends the pass and keeps the writes made so far.
\<close>

fun for_each :: "('k \<Rightarrow> 's \<Rightarrow> exn option \<times> 's) \<Rightarrow> 'k list \<Rightarrow> 's \<Rightarrow> exn option \<times> 's" where
  "for_each body [] m = (None, m)"
| "for_each body (k # ks) m =
     (case body k m of
        (Some e, m') \<Rightarrow> (Some e, m')
      | (None, m') \<Rightarrow> for_each body ks m')"

text \<open>
  After a parent came back: every child of the plan is put into STOPPED and started,
  with its port computed from the configuration (\<open>restart_child\<close> is the body of this
  loop).
\<close>

definition restart_child ::
  "'w environment \<Rightarrow> config \<Rightarrow> int \<Rightarrow> int \<Rightarrow> int \<Rightarrow> 'w TunnelManager \<Rightarrow> 'w TunnelManager" where
  "restart_child env cfg tid port sid s =
     (case (case map_of (ssh_tunnels s) (tid, sid) of
              None \<Rightarrow> s
            | Some ssh_tunnel \<Rightarrow>
                snd (start_ssh_tunnel env cfg tid sid port
                       (socks_start_port cfg + tid * socks_ports_per_tunnel cfg + sid)
                       (update_ssh (tid, sid) (\<lambda>t. t\<lparr>state := STOPPED\<rparr>) s))) of
        s' \<Rightarrow> s'\<lparr>world := sleep env (world s') (1 / 2)\<rparr>)"

definition restart_children ::
  "'w environment \<Rightarrow> config \<Rightarrow> int \<Rightarrow> int \<Rightarrow> 'w TunnelManager \<Rightarrow> 'w TunnelManager" where
  "restart_children env cfg tid port m =
     fold (restart_child env cfg tid port) (py_range (ssh_per_dnstt cfg)) m"

definition touch_dnstt :: "'w environment \<Rightarrow> int \<Rightarrow> 'w TunnelManager \<Rightarrow> 'w TunnelManager" where
  "touch_dnstt env tid m = update_dnstt tid (\<lambda>t. t\<lparr>last_check := clock env (world m)\<rparr>) m"

definition touch_ssh :: "'w environment \<Rightarrow> int \<times> int \<Rightarrow> 'w TunnelManager \<Rightarrow> 'w TunnelManager" where
  "touch_ssh env k m = update_ssh k (\<lambda>t. t\<lparr>last_check := clock env (world m)\<rparr>) m"

text \<open>
  The body of the loop over the DNSTT records. \<open>count\<close> is \<open>tunnel.restart_count\<close> after
  the increment; \<open>stop_dnstt_tunnel\<close> does not change it.
\<close>

definition monitor_dnstt ::
  "'w environment \<Rightarrow> config \<Rightarrow> int \<Rightarrow> 'w TunnelManager \<Rightarrow> exn option \<times> 'w TunnelManager" where
  "monitor_dnstt env cfg tid m =
     (case map_of (dnstt_tunnels m) tid of
        None \<Rightarrow> (None, m)
      | Some tunnel \<Rightarrow>
          if state tunnel \<noteq> RUNNING then (None, m)
          else
            (case is_alive env (world m) (pid tunnel) of
               (alive, w1) \<Rightarrow>
                 (case check_dnstt_port env w1 ''127.0.0.1'' (local_port tunnel) of
                    (Inl e, w2) \<Rightarrow> (Some e, m\<lparr>world := w2\<rparr>)
                  | (Inr port_listening, w2) \<Rightarrow>
                      if \<not> alive \<or> \<not> port_listening then
                        (let count = restart_count tunnel + 1;
                             m1 = update_dnstt tid
                                    (\<lambda>t. t\<lparr>state := FAILED, restart_count := count\<rparr>)
                                    (m\<lparr>world := w2\<rparr>)
                         in if count \<le> max_retries cfg then
                              (case stop_dnstt_tunnel env cfg tid m1 of
                                 (r, m2) \<Rightarrow>
                                   (case time_sleep env (world m2)
                                           (backoff_seconds cfg * of_int count) of
                                      Inl e \<Rightarrow> (Some e, m2)
                                    | Inr w3 \<Rightarrow>
                                        (case start_dnstt_tunnel env cfg tid (local_port tunnel)
                                                (m2\<lparr>world := w3\<rparr>) of
                                           (True, m3) \<Rightarrow>
                                             (None,
                                              touch_dnstt env tid
                                                (update_dnstt tid (\<lambda>t. t\<lparr>restart_count := 0\<rparr>)
                                                   (restart_children env cfg tid
                                                      (local_port tunnel) m3)))
                                         | (False, m3) \<Rightarrow> (None, touch_dnstt env tid m3))))
                            else
                              (case stop_dnstt_tunnel env cfg tid m1 of
                                 (r, m2) \<Rightarrow> (None, touch_dnstt env tid m2)))
                      else (None, touch_dnstt env tid (m\<lparr>world := w2\<rparr>)))))"

text \<open>The body of the loop over the SSH records.\<close>

definition monitor_ssh ::
  "'w environment \<Rightarrow> config \<Rightarrow> int \<times> int \<Rightarrow> 'w TunnelManager \<Rightarrow> exn option \<times> 'w TunnelManager" where
  "monitor_ssh env cfg k m =
     (case map_of (ssh_tunnels m) k of
        None \<Rightarrow> (None, m)
      | Some ssh_tunnel \<Rightarrow>
          (case map_of (dnstt_tunnels m) (fst k) of
             None \<Rightarrow> (None, m)
           | Some parent_tunnel \<Rightarrow>
               if state parent_tunnel \<noteq> RUNNING then (None, m)
               else if state ssh_tunnel \<noteq> RUNNING then (None, m)
               else
                 (case is_alive env (world m) (pid ssh_tunnel) of
                    (alive, w1) \<Rightarrow>
                      (case check_tunnel_health env w1 ''127.0.0.1'' (socks5_port ssh_tunnel)
                              default_test_url of
                         (Inl e, w2) \<Rightarrow> (Some e, m\<lparr>world := w2\<rparr>)
                       | (Inr socks5_healthy, w2) \<Rightarrow>
                           if \<not> alive \<or> \<not> socks5_healthy then
                             (let count = restart_count ssh_tunnel + 1;
                                  m1 = update_ssh k
                                         (\<lambda>t. t\<lparr>state := FAILED, restart_count := count\<rparr>)
                                         (m\<lparr>world := w2\<rparr>)
                              in if count \<le> max_retries cfg then
                                   (case stop_ssh_tunnel env cfg (fst k) (snd k) m1 of
                                      (r, m2) \<Rightarrow>
                                        (case time_sleep env (world m2)
                                                (backoff_seconds cfg * of_int count) of
                                           Inl e \<Rightarrow> (Some e, m2)
                                         | Inr w3 \<Rightarrow>
                                             (case start_ssh_tunnel env cfg (fst k) (snd k)
                                                     (local_port parent_tunnel)
                                                     (socks5_port ssh_tunnel)
                                                     (m2\<lparr>world := w3\<rparr>) of
                                                (True, m3) \<Rightarrow>
                                                  (None,
                                                   touch_ssh env k
                                                     (update_ssh k
                                                        (\<lambda>t. t\<lparr>restart_count := 0\<rparr>) m3))
                                              | (False, m3) \<Rightarrow> (None, touch_ssh env k m3))))
                                 else
                                   (case stop_ssh_tunnel env cfg (fst k) (snd k) m1 of
                                      (r, m2) \<Rightarrow> (None, touch_ssh env k m2)))
                           else (None, touch_ssh env k (m\<lparr>world := w2\<rparr>))))))"

text \<open>
  One pass: the body of the \<open>while\<close> loop of \<open>monitor_loop\<close>. Both loops run over
  \<open>list(....items())\<close>, a snapshot of the keys; the objects are the ones in the dict. After
  the loops the event is waited on for \<open>health_interval\<close> seconds; an exception is logged
  and followed by \<open>time.sleep(5)\<close>.
\<close>

definition monitor_pass ::
  "'w environment \<Rightarrow> config \<Rightarrow> 'w TunnelManager \<Rightarrow> 'w TunnelManager" where
  "monitor_pass env cfg m =
     (case for_each (monitor_dnstt env cfg) (map fst (dnstt_tunnels m)) m of
        (Some e, m1) \<Rightarrow> m1\<lparr>world := sleep env (world m1) 5\<rparr>
      | (None, m1) \<Rightarrow>
          (case for_each (monitor_ssh env cfg) (map fst (ssh_tunnels m1)) m1 of
             (Some e, m2) \<Rightarrow> m2\<lparr>world := sleep env (world m2) 5\<rparr>
           | (None, m2) \<Rightarrow> m2\<lparr>world := sleep env (world m2) (of_int (health_interval cfg))\<rparr>))"

text \<open>\<open>monitor_loop\<close> runs passes until the event is set; \<open>n\<close> bounds the passes looked at.\<close>

fun monitor_loop ::
  "'w environment \<Rightarrow> config \<Rightarrow> nat \<Rightarrow> 'w TunnelManager \<Rightarrow> 'w TunnelManager" where
  "monitor_loop env cfg 0 m = m"
| "monitor_loop env cfg (Suc n) m =
     (if shutdown_event m then m else monitor_loop env cfg n (monitor_pass env cfg m))"

section \<open>tunnel_manager.py: start and stop of the manager\<close>

text \<open>\<open>start\<close> up to the point where the monitor thread is created.\<close>

definition start :: "'w environment \<Rightarrow> config \<Rightarrow> 'w TunnelManager \<Rightarrow> 'w TunnelManager" where
  "start env cfg m =
     (if running m then m
      else initialize_tunnels env cfg (m\<lparr>running := True, shutdown_event := False\<rparr>))"

definition stop :: "'w environment \<Rightarrow> config \<Rightarrow> 'w TunnelManager \<Rightarrow> 'w TunnelManager" where
  "stop env cfg m =
     (if \<not> running m then m
      else fold (\<lambda>tid s. snd (stop_dnstt_tunnel env cfg tid s))
             (map fst (dnstt_tunnels m))
             (m\<lparr>running := False, shutdown_event := True\<rparr>))"

section \<open>A reference environment for the scenarios\<close>

text \<open>
  A small concrete world, used where a statement is evaluated on an input: children get
  consecutive pids, \<open>dead\<close> lists the pids that no longer exist, \<open>refused\<close> the ports that
  refuse a connection, and the registry keeps the outbounds it was given as
  (id, remark) pairs. The registry answers on the first endpoint of each operation; it
  assigns no id of its own, so the client falls back to the port. With \<open>unauthorized\<close>
  set it answers every request except the login with status 401; with \<open>offline\<close> set
  every request raises. \<open>socket_raises\<close> and \<open>proxy_raises\<close> make the two probes meet an
  exception.
\<close>

record sim_world =
  next_pid :: nat
  dead :: "nat list"
  refused :: "int list"
  outbounds :: "(string \<times> string) list"
  unauthorized :: bool
  offline :: bool
  socket_raises :: bool
  proxy_raises :: bool

definition sim_url :: string where
  "sim_url = ''http://127.0.0.1:2053''"

definition plain_body :: body where
  "plain_body = \<lparr>success = True, token = None, body_id = None, obj_id = ObjId None, listing = []\<rparr>"

definition answer :: "int \<Rightarrow> body \<Rightarrow> http_response option" where
  "answer code b = Some \<lparr>status_code = code, json = Some b, session_cookie = False\<rparr>"

definition sim_registry :: "sim_world \<Rightarrow> http_request \<Rightarrow> http_response option \<times> sim_world" where
  "sim_registry w rq =
     (if offline w then (None, w)
      else if url rq = sim_url @ ''/login'' then (answer 200 plain_body, w)
      else if unauthorized w then (answer 401 plain_body, w)
      else if http_verb rq = POST \<and> url rq = sim_url @ ''/xui/API/outbounds/add'' then
        (case json_payload rq of
           OutboundPayload host port remark \<Rightarrow>
             (answer 200 plain_body, w\<lparr>outbounds := outbounds w @ [(str port, remark)]\<rparr>)
         | other \<Rightarrow> (answer 400 plain_body, w))
      else if http_verb rq = POST \<and> url rq = sim_url @ ''/xui/API/setting/updateXrayConfig'' then
        (answer 200 plain_body, w)
      else if http_verb rq = GET \<and> url rq = sim_url @ ''/xui/API/outbounds'' then
        (answer 200 (plain_body\<lparr>listing := map snd (outbounds w)\<rparr>), w)
      else if http_verb rq = DELETE then
        (if \<exists>ob \<in> set (outbounds w). url rq = sim_url @ ''/xui/API/outbounds/'' @ fst ob then
           (answer 200 plain_body,
            w\<lparr>outbounds :=
                 filter (\<lambda>ob. url rq \<noteq> sim_url @ ''/xui/API/outbounds/'' @ fst ob) (outbounds w)\<rparr>)
         else (answer 404 plain_body, w))
      else (answer 404 plain_body, w))"

definition sim_env :: "sim_world environment" where
  "sim_env =
     \<lparr>popen = (\<lambda>w cmd. (Some (next_pid w), w\<lparr>next_pid := Suc (next_pid w)\<rparr>)),
      poll = (\<lambda>w p. (p \<in> set (dead w), w)),
      terminate = (\<lambda>w p. w\<lparr>dead := p # dead w\<rparr>),
      killpg = (\<lambda>w p. w\<lparr>dead := p # dead w\<rparr>),
      pid_exists = (\<lambda>w p. (Inr (p \<notin> set (dead w)), w)),
      connect_ex = (\<lambda>w host port.
                      (if socket_raises w then Inl OtherException
                       else if port \<in> set (refused w) then Inr 111 else Inr 0, w)),
      requests_get = (\<lambda>w test_url proxy. (if proxy_raises w then Inl ProxyError else Inr (), w)),
      session_request = sim_registry,
      sleep = (\<lambda>w d. w),
      clock = (\<lambda>w. 0)\<rparr>"

definition sim_start :: sim_world where
  "sim_start =
     \<lparr>next_pid = 100, dead = [], refused = [], outbounds = [], unauthorized = False,
      offline = False, socket_raises = False, proxy_raises = False\<rparr>"

definition sim_client :: XUIClient where
  "sim_client =
     \<lparr>api_url = sim_url, username = ''admin'', password = [], auth_token = None,
      authenticated = False\<rparr>"

text \<open>The configuration of the clean-start scenario; the fields it leaves open take the defaults.\<close>

definition scenario_config :: config where
  "scenario_config =
     \<lparr>dnstt_path = ''/usr/local/bin/dnstt-client'', dnstt_remote_ip = ''192.0.2.1'',
      dnstt_port = 53, dnstt_domain = ''t.example.com'', dnstt_pubkey = [],
      ssh_user = ''tunnel'', ssh_key_path = ''~/.ssh/dnstt_key'', ssh_server = ''127.0.0.1'',
      dnstt_count = 2, ssh_per_dnstt = 3, dnstt_start_port = 1080, socks_start_port = 9090,
      socks_ports_per_tunnel = 100, health_interval = 60, max_retries = 5,
      backoff_seconds = 10\<rparr>"

section \<open>Views of a manager used in the statements\<close>

text \<open>
  The port plan of a manager: for every record, in dict order, its key, its identity
  fields and its port.
\<close>

definition dnstt_plan :: "'w TunnelManager \<Rightarrow> (int \<times> int \<times> int) list" where
  "dnstt_plan m = map (\<lambda>kr. (fst kr, tunnel_id (snd kr), local_port (snd kr))) (dnstt_tunnels m)"

definition ssh_plan :: "'w TunnelManager \<Rightarrow> ((int \<times> int) \<times> int \<times> int \<times> int) list" where
  "ssh_plan m =
     map (\<lambda>kr. (fst kr, tunnel_id (snd kr), ssh_id (snd kr), socks5_port (snd kr))) (ssh_tunnels m)"

text \<open>The records that the first two loops of \<open>initialize_tunnels\<close> leave in a new manager.\<close>

definition created :: "config \<Rightarrow> XUIClient \<Rightarrow> 'w \<Rightarrow> 'w TunnelManager" where
  "created cfg c w = create_ssh_records cfg (create_dnstt_records cfg (new_manager c w))"


text \<open>The parent of a child is running: the DNSTT record of this \<open>tunnel_id\<close> exists and is RUNNING.\<close>

definition parent_running :: "'w TunnelManager \<Rightarrow> int \<Rightarrow> bool" where
  "parent_running m t =
     (case map_of (dnstt_tunnels m) t of Some d \<Rightarrow> state d = RUNNING | None \<Rightarrow> False)"

text \<open>
  Every SSH record is stored under its own (\<open>tunnel_id\<close>, \<open>ssh_id\<close>), and the keys of both
  dicts are keys of the configured plan.
\<close>

definition plan_ok :: "config \<Rightarrow> 'w TunnelManager \<Rightarrow> bool" where
  "plan_ok cfg m =
     ((\<forall>k e. map_of (ssh_plan m) k = Some e \<longrightarrow> k = (fst e, fst (snd e))) \<and>
      fst ` set (dnstt_plan m) \<subseteq> set (py_range (dnstt_count cfg)) \<and>
      fst ` set (ssh_plan m) \<subseteq>
        set (List.product (py_range (dnstt_count cfg)) (py_range (ssh_per_dnstt cfg))))"

text \<open>
  Between two operations every child is either RUNNING under a RUNNING parent, or
  STOPPED without a process.
\<close>

definition children_ok :: "'w TunnelManager \<Rightarrow> bool" where
  "children_ok m =
     (\<forall>k r. map_of (ssh_tunnels m) k = Some r \<longrightarrow>
        state r = RUNNING \<and> parent_running m (fst k) \<or>
        state r = STOPPED \<and> process r = None \<and> pid r = None)"

text \<open>
  The state after a start-up in which the port of DNSTT tunnel 0 never opened: tunnel 0 is
  left in STARTING, its children were not started; tunnel 1 and its children run.
\<close>

definition stalled_state :: "sim_world TunnelManager" where
  "stalled_state =
     \<lparr>running = False, shutdown_event = False,
      dnstt_tunnels =
        [(0, \<lparr>tunnel_id = 0, process = None, pid = None, state = STARTING,
               restart_count = 0, last_check = 0, local_port = 1080\<rparr>),
         (1, \<lparr>tunnel_id = 1, process = Some 101, pid = Some 101, state = RUNNING,
               restart_count = 0, last_check = 0, local_port = 1081\<rparr>)],
      ssh_tunnels =
        [((0, 0), \<lparr>tunnel_id = 0, process = None, pid = None, state = STOPPED,
                    restart_count = 0, last_check = 0, ssh_id = 0, socks5_port = 9090,
                    xui_outbound_id = None\<rparr>),
         ((0, 1), \<lparr>tunnel_id = 0, process = None, pid = None, state = STOPPED,
                    restart_count = 0, last_check = 0, ssh_id = 1, socks5_port = 9091,
                    xui_outbound_id = None\<rparr>),
         ((0, 2), \<lparr>tunnel_id = 0, process = None, pid = None, state = STOPPED,
                    restart_count = 0, last_check = 0, ssh_id = 2, socks5_port = 9092,
                    xui_outbound_id = None\<rparr>),
         ((1, 0), \<lparr>tunnel_id = 1, process = Some 102, pid = Some 102, state = RUNNING,
                    restart_count = 0, last_check = 0, ssh_id = 0, socks5_port = 9190,
                    xui_outbound_id = Some ''9190''\<rparr>),
         ((1, 1), \<lparr>tunnel_id = 1, process = Some 103, pid = Some 103, state = RUNNING,
                    restart_count = 0, last_check = 0, ssh_id = 1, socks5_port = 9191,
                    xui_outbound_id = Some ''9191''\<rparr>),
         ((1, 2), \<lparr>tunnel_id = 1, process = Some 104, pid = Some 104, state = RUNNING,
                    restart_count = 0, last_check = 0, ssh_id = 2, socks5_port = 9192,
                    xui_outbound_id = Some ''9192''\<rparr>)],
      xui_client = sim_client\<lparr>authenticated := True\<rparr>,
      world =
        sim_start
          \<lparr>next_pid := 105, dead := [100], refused := [1080],
           outbounds :=
             [(''9190'', ''DNSTT-1-SSH-0-127.0.0.1:9190''),
              (''9191'', ''DNSTT-1-SSH-1-127.0.0.1:9191''),
              (''9192'', ''DNSTT-1-SSH-2-127.0.0.1:9192'')]\<rparr>\<rparr>"

text \<open>
  What one iteration of the monitor may do to the restart counter of the record it
  looks at: leave the record as it was (state, process and counter), bring it back
  (RUNNING with the counter reset to 0), or give it up for now (STOPPED with the counter
  one higher).
\<close>

definition count_step :: "'a tunnel_scheme \<Rightarrow> 'a tunnel_scheme \<Rightarrow> bool" where
  "count_step r r' =
     (restart_count r' = restart_count r \<and> state r' = state r \<and> process r' = process r \<or>
      restart_count r' = 0 \<and> state r' = RUNNING \<or>
      restart_count r' = restart_count r + 1 \<and> state r' = STOPPED)"

text \<open>
  The same over a whole pass, where a child may also have been stopped or started with
  its parent: the counter is unchanged, or reset to 0 on a RUNNING record, or one higher
  on a STOPPED record.
\<close>

definition count_pass :: "'a tunnel_scheme \<Rightarrow> 'a tunnel_scheme \<Rightarrow> bool" where
  "count_pass r r' =
     (restart_count r' = restart_count r \<or>
      restart_count r' = 0 \<and> state r' = RUNNING \<or>
      restart_count r' = restart_count r + 1 \<and> state r' = STOPPED)"

text \<open>
  The registry is outside the code, so what it holds is read off what the client sent
  it. \<open>recording env\<close> is \<open>env\<close> with a journal beside the world: every request of the
  session is entered with its answer, and every pause with its length; nothing else
  about \<open>env\<close> changes.
\<close>

datatype event = Request http_request "http_response option" | Slept rat


text \<open>The journal of a manager that runs in a recording environment.\<close>

definition journal :: "('w \<times> event list) TunnelManager \<Rightarrow> event list" where
  "journal m = snd (world m)"

text \<open>
  The outbounds the registry took according to a journal: port and remark of every
  outbound that was posted and answered with status 200 or 201. \<open>removals\<close> are the
  DELETE requests, whatever the answer.
\<close>

definition outbound_of :: "event \<Rightarrow> (int \<times> string) list" where
  "outbound_of e =
     (case e of
        Request rq (Some response) \<Rightarrow>
          (case json_payload rq of
             OutboundPayload host port remark \<Rightarrow>
               if http_verb rq = POST \<and> (status_code response = 200 \<or> status_code response = 201)
               then [(port, remark)] else []
           | other \<Rightarrow> [])
      | other \<Rightarrow> [])"

definition registered :: "event list \<Rightarrow> (int \<times> string) list" where
  "registered es = concat (map outbound_of es)"

definition removals :: "event list \<Rightarrow> event list" where
  "removals es =
     filter (\<lambda>e. case e of Request rq r \<Rightarrow> http_verb rq = DELETE | Slept d \<Rightarrow> False) es"




text \<open>
  Whether a child process is alive is a fact of the world, not of the records. \<open>alive w p\<close>
  says that the child with pid \<open>p\<close> is alive in world \<open>w\<close>; \<open>fades alive w w'\<close> that no
  child is alive in \<open>w'\<close> that was not in \<open>w\<close>.
\<close>

definition fades :: "('w \<Rightarrow> nat \<Rightarrow> bool) \<Rightarrow> 'w \<Rightarrow> 'w \<Rightarrow> bool" where
  "fades alive w w' = (\<forall>p. alive w' p \<longrightarrow> alive w p)"

text \<open>
  What an operating system does about the children of a process, as far as the
  supervisor relies on it: only \<open>Popen\<close> brings a child to life, and only the one it
  returns; a child that \<open>poll\<close> reports as exited is not alive; nor is a child after
  \<open>terminate\<close> (with its wait and kill) or after the signals of \<open>killpg\<close>;
  \<open>psutil.pid_exists\<close> says \<open>True\<close> for a child that is alive; and no child has pid 0.
\<close>

definition lawful :: "'w environment \<Rightarrow> ('w \<Rightarrow> nat \<Rightarrow> bool) \<Rightarrow> bool" where
  "lawful env alive =
     ((\<forall>w cmd p. alive (snd (popen env w cmd)) p \<longrightarrow>
                   alive w p \<or> fst (popen env w cmd) = Some p) \<and>
      (\<forall>w q. fades alive w (snd (poll env w q)) \<and>
              (fst (poll env w q) \<longrightarrow> \<not> alive (snd (poll env w q)) q)) \<and>
      (\<forall>w q. fades alive w (terminate env w q) \<and> \<not> alive (terminate env w q) q) \<and>
      (\<forall>w q. fades alive w (killpg env w q) \<and> \<not> alive (killpg env w q) q) \<and>
      (\<forall>w q. fades alive w (snd (pid_exists env w q)) \<and>
              (fst (pid_exists env w q) \<noteq> Inr True \<longrightarrow> \<not> alive (snd (pid_exists env w q)) q)) \<and>
      (\<forall>w host port. fades alive w (snd (connect_ex env w host port))) \<and>
      (\<forall>w test_url proxy. fades alive w (snd (requests_get env w test_url proxy))) \<and>
      (\<forall>w rq. fades alive w (snd (session_request env w rq))) \<and>
      (\<forall>w d. fades alive w (sleep env w d)) \<and>
      (\<forall>w. \<not> alive w 0))"

text \<open>A record holds process \<open>p\<close>: \<open>p\<close> is its handle and its pid.\<close>

definition holds :: "'a tunnel_scheme \<Rightarrow> nat \<Rightarrow> bool" where
  "holds r p = (process r = Some p \<and> pid r = Some p)"

definition held :: "'w TunnelManager \<Rightarrow> nat \<Rightarrow> bool" where
  "held m p =
     ((\<exists>t d. map_of (dnstt_tunnels m) t = Some d \<and> holds d p) \<or>
      (\<exists>k r. map_of (ssh_tunnels m) k = Some r \<and> holds r p))"

text \<open>No child is alive that no record holds.\<close>

definition no_strays :: "('w \<Rightarrow> nat \<Rightarrow> bool) \<Rightarrow> 'w TunnelManager \<Rightarrow> bool" where
  "no_strays alive m = (\<forall>p. alive (world m) p \<longrightarrow> held m p)"

text \<open>
  The children alive in the reference world: the pids given out (from 100 on) and not
  yet dead.
\<close>

definition sim_alive :: "sim_world \<Rightarrow> nat \<Rightarrow> bool" where
  "sim_alive w p = (100 \<le> p \<and> p < next_pid w \<and> p \<notin> set (dead w))"

text \<open>
  Parent-child liveness. For the records: every SSH record that is RUNNING has a RUNNING
  parent, and every SSH record whose parent is not RUNNING is STOPPED, STOPPING or FAILED
  and holds no process. For the world: every child process that is alive is held by a
  DNSTT record, or by an SSH record that is RUNNING under a RUNNING parent; so no process
  is alive for a child whose parent is not RUNNING.
\<close>

definition parent_child_liveness :: "('w \<Rightarrow> nat \<Rightarrow> bool) \<Rightarrow> 'w TunnelManager \<Rightarrow> bool" where
  "parent_child_liveness alive m =
     ((\<forall>k r. map_of (ssh_tunnels m) k = Some r \<longrightarrow>
         (state r = RUNNING \<longrightarrow> parent_running m (tunnel_id r)) \<and>
         (\<not> parent_running m (tunnel_id r) \<longrightarrow>
            (state r = STOPPED \<or> state r = STOPPING \<or> state r = FAILED) \<and>
            process r = None \<and> pid r = None)) \<and>
      (\<forall>p. alive (world m) p \<longrightarrow>
         (\<exists>t d. map_of (dnstt_tunnels m) t = Some d \<and> holds d p) \<or>
         (\<exists>k r. map_of (ssh_tunnels m) k = Some r \<and> holds r p \<and> state r = RUNNING \<and>
                parent_running m (tunnel_id r))))"

text \<open>
  The states the supervisor reaches when its operations run one at a time: a new
  manager in a world without children, then any sequence of operations, with the world
  free to change between two of them as long as no child comes to life by itself.
  \<open>initialize_tunnels\<close> and \<open>start\<close> replace the records, so they are applied when no child
  is alive; the two start methods overwrite the handle of the record, so they are
  applied to a record that holds none; \<open>start_ssh_tunnel\<close> is applied, as the supervisor's
  own callers apply it, to a child whose parent is RUNNING.
\<close>

inductive reachable ::
  "'w environment \<Rightarrow> ('w \<Rightarrow> nat \<Rightarrow> bool) \<Rightarrow> config \<Rightarrow> 'w TunnelManager \<Rightarrow> bool"
  for env :: "'w environment" and alive :: "'w \<Rightarrow> nat \<Rightarrow> bool" and cfg :: config where
  new: "(\<And>p. \<not> alive w p) \<Longrightarrow> reachable env alive cfg (new_manager c w)"
| initialize:
    "reachable env alive cfg m \<Longrightarrow> (\<And>p. \<not> alive (world m) p) \<Longrightarrow>
     reachable env alive cfg (initialize_tunnels env cfg m)"
| started:
    "reachable env alive cfg m \<Longrightarrow> (\<And>p. \<not> alive (world m) p) \<Longrightarrow>
     reachable env alive cfg (start env cfg m)"
| stopped: "reachable env alive cfg m \<Longrightarrow> reachable env alive cfg (stop env cfg m)"
| start_dnstt:
    "reachable env alive cfg m \<Longrightarrow> map_of (dnstt_tunnels m) tid = Some d \<Longrightarrow> process d = None \<Longrightarrow>
     reachable env alive cfg (snd (start_dnstt_tunnel env cfg tid port m))"
| stop_dnstt:
    "reachable env alive cfg m \<Longrightarrow> reachable env alive cfg (snd (stop_dnstt_tunnel env cfg tid m))"
| start_ssh:
    "reachable env alive cfg m \<Longrightarrow> parent_running m tid \<Longrightarrow>
     map_of (ssh_tunnels m) (tid, sid) = Some r \<Longrightarrow> process r = None \<Longrightarrow>
     reachable env alive cfg (snd (start_ssh_tunnel env cfg tid sid port socks5 m))"
| stop_ssh:
    "reachable env alive cfg m \<Longrightarrow> reachable env alive cfg (snd (stop_ssh_tunnel env cfg tid sid m))"
| monitor: "reachable env alive cfg m \<Longrightarrow> reachable env alive cfg (monitor_pass env cfg m)"
| outside:
    "reachable env alive cfg m \<Longrightarrow> fades alive (world m) w \<Longrightarrow>
     reachable env alive cfg (m\<lparr>world := w\<rparr>)"

text \<open>
  The monitor runs in a thread of its own and takes the lock only inside the start and
  stop methods, so an operation of the main thread can run in the middle of an
  iteration. \<open>monitor_ssh_with\<close> is \<open>monitor_ssh\<close> with the operation \<open>meanwhile\<close> of the other
  thread run during the backoff sleep, after \<open>stop_ssh_tunnel\<close> and before
  \<open>start_ssh_tunnel\<close>; the parent's port and the child's port are the ones read when the
  iteration began.
\<close>

definition monitor_ssh_with ::
  "'w environment \<Rightarrow> config \<Rightarrow> ('w TunnelManager \<Rightarrow> 'w TunnelManager) \<Rightarrow> int \<times> int \<Rightarrow>
   'w TunnelManager \<Rightarrow> exn option \<times> 'w TunnelManager" where
  "monitor_ssh_with env cfg meanwhile k m =
     (case map_of (ssh_tunnels m) k of
        None \<Rightarrow> (None, m)
      | Some ssh_tunnel \<Rightarrow>
          (case map_of (dnstt_tunnels m) (fst k) of
             None \<Rightarrow> (None, m)
           | Some parent_tunnel \<Rightarrow>
               if state parent_tunnel \<noteq> RUNNING then (None, m)
               else if state ssh_tunnel \<noteq> RUNNING then (None, m)
               else
                 (case is_alive env (world m) (pid ssh_tunnel) of
                    (alive, w1) \<Rightarrow>
                      (case check_tunnel_health env w1 ''127.0.0.1'' (socks5_port ssh_tunnel)
                              default_test_url of
                         (Inl e, w2) \<Rightarrow> (Some e, m\<lparr>world := w2\<rparr>)
                       | (Inr socks5_healthy, w2) \<Rightarrow>
                           if \<not> alive \<or> \<not> socks5_healthy then
                             (let count = restart_count ssh_tunnel + 1;
                                  m1 = update_ssh k
                                         (\<lambda>t. t\<lparr>state := FAILED, restart_count := count\<rparr>)
                                         (m\<lparr>world := w2\<rparr>)
                              in if count \<le> max_retries cfg then
                                   (case stop_ssh_tunnel env cfg (fst k) (snd k) m1 of
                                      (r, m2) \<Rightarrow>
                                        (case time_sleep env (world m2)
                                                (backoff_seconds cfg * of_int count) of
                                           Inl e \<Rightarrow> (Some e, m2)
                                         | Inr w3 \<Rightarrow>
                                             (case start_ssh_tunnel env cfg (fst k) (snd k)
                                                     (local_port parent_tunnel)
                                                     (socks5_port ssh_tunnel)
                                                     (meanwhile (m2\<lparr>world := w3\<rparr>)) of
                                                (True, m3) \<Rightarrow>
                                                  (None,
                                                   touch_ssh env k
                                                     (update_ssh k
                                                        (\<lambda>t. t\<lparr>restart_count := 0\<rparr>) m3))
                                              | (False, m3) \<Rightarrow> (None, touch_ssh env k m3))))
                                 else
                                   (case stop_ssh_tunnel env cfg (fst k) (snd k) m1 of
                                      (r, m2) \<Rightarrow> (None, touch_ssh env k m2)))
                           else (None, touch_ssh env k (m\<lparr>world := w2\<rparr>))))))"

section \<open>The probes never raise\<close>






section \<open>Stopping what is not there\<close>

text \<open>
  C9. \<open>stop_dnstt_tunnel\<close> with a \<open>tunnel_id\<close> that is not a key of \<open>dnstt_tunnels\<close>, and
  \<open>stop_ssh_tunnel\<close> with a pair that is not a key of \<open>ssh_tunnels\<close>, return \<open>True\<close> and the
  manager they were given: every record, the registry client and the world (processes
  and registry) are unchanged.
\<close>

theorem stop_absent_unchanged:
  "(map_of (dnstt_tunnels m) tid = None \<longrightarrow> stop_dnstt_tunnel env cfg tid m = (True, m)) \<and>
   (map_of (ssh_tunnels m) (tid, sid) = None \<longrightarrow> stop_ssh_tunnel env cfg tid sid m = (True, m))"
  by (simp add: stop_dnstt_tunnel_def stop_ssh_tunnel_def)

theorem stop_absent_unchanged_witness:
  "map_of (dnstt_tunnels (new_manager sim_client sim_start)) 7 = None \<and>
   stop_dnstt_tunnel sim_env scenario_config 7 (new_manager sim_client sim_start)
     = (True, new_manager sim_client sim_start) \<and>
   map_of (ssh_tunnels (new_manager sim_client sim_start)) (7, 3) = None \<and>
   stop_ssh_tunnel sim_env scenario_config 7 3 (new_manager sim_client sim_start)
     = (True, new_manager sim_client sim_start)"
proof -
  have d: "map_of (dnstt_tunnels (new_manager sim_client sim_start)) 7 = None"
    by (simp add: new_manager_def)
  have s: "map_of (ssh_tunnels (new_manager sim_client sim_start)) (7, 3) = None"
    by (simp add: new_manager_def)
  show ?thesis
    using d s
      stop_absent_unchanged [of "new_manager sim_client sim_start" 7 sim_env scenario_config 3]
    by simp
qed

lemma update_absent: "k \<notin> fst ` set al \<Longrightarrow> AList.update k v al = al @ [(k, v)]"
  by (induction al) auto

lemma fold_update_fresh:
  "distinct ks \<Longrightarrow> set ks \<inter> fst ` set al = {} \<Longrightarrow>
   fold (\<lambda>k. AList.update k (f k)) ks al = al @ map (\<lambda>k. (k, f k)) ks"
proof (induction ks arbitrary: al)
  case Nil
  then show ?case by simp
next
  case (Cons k ks)
  from Cons.prems have k: "k \<notin> fst ` set al" by auto
  from Cons.prems have d: "distinct ks" and
    i: "set ks \<inter> fst ` set (al @ [(k, f k)]) = {}" by auto
  show ?case
    using Cons.IH [OF d i] by (simp add: update_absent [OF k])
qed

lemma distinct_py_range: "distinct (py_range n)"
  by (simp add: py_range_def distinct_map)

lemma length_py_range: "length (py_range n) = nat n"
  by (simp add: py_range_def)

lemma set_py_range: "set (py_range n) = {i. 0 \<le> i \<and> i < n}"
proof -
  have "\<And>i. 0 \<le> i \<Longrightarrow> i < n \<Longrightarrow> i \<in> int ` {0..<nat n}"
  proof -
    fix i :: int assume "0 \<le> i" "i < n"
    then have "i = int (nat i)" "nat i \<in> {0..<nat n}" by auto
    then show "i \<in> int ` {0..<nat n}" by blast
  qed
  then show ?thesis by (auto simp: py_range_def)
qed

lemma fold_dnstt_field:
  "fold (\<lambda>tid s. s\<lparr>dnstt_tunnels := AList.update tid (g tid) (dnstt_tunnels s)\<rparr>) ks m =
   m\<lparr>dnstt_tunnels := fold (\<lambda>tid. AList.update tid (g tid)) ks (dnstt_tunnels m)\<rparr>"
  by (induction ks arbitrary: m) simp_all

lemma fold_ssh_field:
  "fold (\<lambda>k s. s\<lparr>ssh_tunnels := AList.update k (g k) (ssh_tunnels s)\<rparr>) ks m =
   m\<lparr>ssh_tunnels := fold (\<lambda>k. AList.update k (g k)) ks (ssh_tunnels m)\<rparr>"
  by (induction ks arbitrary: m) simp_all

lemma fold_ssh_inner:
  "fold (\<lambda>sid s. s\<lparr>ssh_tunnels := AList.update (tid, sid) (new_ssh cfg tid sid) (ssh_tunnels s)\<rparr>) sids m =
   fold (\<lambda>k s. s\<lparr>ssh_tunnels := AList.update k (new_ssh cfg (fst k) (snd k)) (ssh_tunnels s)\<rparr>)
     (map (Pair tid) sids) m"
  by (simp add: fold_map comp_def)

lemma fold_ssh_outer:
  "fold (\<lambda>tid. fold (\<lambda>sid s. s\<lparr>ssh_tunnels :=
           AList.update (tid, sid) (new_ssh cfg tid sid) (ssh_tunnels s)\<rparr>) sids) tids m =
   fold (\<lambda>k s. s\<lparr>ssh_tunnels := AList.update k (new_ssh cfg (fst k) (snd k)) (ssh_tunnels s)\<rparr>)
     (List.product tids sids) m"
  by (induction tids arbitrary: m) (simp_all add: fold_ssh_inner)

lemma create_ssh_records_product:
  "create_ssh_records cfg m =
   fold (\<lambda>k s. s\<lparr>ssh_tunnels := AList.update k (new_ssh cfg (fst k) (snd k)) (ssh_tunnels s)\<rparr>)
     (List.product (py_range (dnstt_count cfg)) (py_range (ssh_per_dnstt cfg))) m"
  by (simp add: create_ssh_records_def fold_ssh_outer)

lemma created_records:
  "created cfg c w =
   (new_manager c w)
     \<lparr>dnstt_tunnels := map (\<lambda>t. (t, new_dnstt cfg t)) (py_range (dnstt_count cfg)),
      ssh_tunnels := map (\<lambda>k. (k, new_ssh cfg (fst k) (snd k)))
                       (List.product (py_range (dnstt_count cfg)) (py_range (ssh_per_dnstt cfg)))\<rparr>"
  by (simp add: created_def create_ssh_records_product create_dnstt_records_def fold_dnstt_field
      fold_ssh_field fold_update_fresh distinct_py_range distinct_product new_manager_def)

lemma map_map_entry:
  "(\<And>r. g (k, f r) = g (k, r)) \<Longrightarrow> map g (AList.map_entry k f al) = map g al"
  by (induction al) auto

lemma plan_update_dnstt:
  "(\<And>r. tunnel_id (f r) = tunnel_id r \<and> local_port (f r) = local_port r) \<Longrightarrow>
   dnstt_plan (update_dnstt k f m) = dnstt_plan m \<and> ssh_plan (update_dnstt k f m) = ssh_plan m"
  by (simp add: dnstt_plan_def ssh_plan_def update_dnstt_def map_map_entry)

lemma plan_update_ssh:
  "(\<And>r. tunnel_id (f r) = tunnel_id r \<and> ssh_id (f r) = ssh_id r \<and> socks5_port (f r) = socks5_port r) \<Longrightarrow>
   dnstt_plan (update_ssh k f m) = dnstt_plan m \<and> ssh_plan (update_ssh k f m) = ssh_plan m"
  by (simp add: dnstt_plan_def ssh_plan_def update_ssh_def map_map_entry)

lemma plan_fields [simp]:
  "dnstt_plan (m\<lparr>world := w\<rparr>) = dnstt_plan m"
  "ssh_plan (m\<lparr>world := w\<rparr>) = ssh_plan m"
  "dnstt_plan (m\<lparr>xui_client := c\<rparr>) = dnstt_plan m"
  "ssh_plan (m\<lparr>xui_client := c\<rparr>) = ssh_plan m"
  "dnstt_plan (m\<lparr>running := b\<rparr>) = dnstt_plan m"
  "ssh_plan (m\<lparr>running := b\<rparr>) = ssh_plan m"
  "dnstt_plan (m\<lparr>shutdown_event := b\<rparr>) = dnstt_plan m"
  "ssh_plan (m\<lparr>shutdown_event := b\<rparr>) = ssh_plan m"
  by (simp_all add: dnstt_plan_def ssh_plan_def)

lemma plan_start_dnstt_tunnel:
  "dnstt_plan (snd (start_dnstt_tunnel env cfg tid port m)) = dnstt_plan m \<and>
   ssh_plan (snd (start_dnstt_tunnel env cfg tid port m)) = ssh_plan m"
  by (simp add: start_dnstt_tunnel_def plan_update_dnstt
      split: prod.splits option.splits sum.splits bool.splits)

lemma plan_start_ssh_tunnel:
  "dnstt_plan (snd (start_ssh_tunnel env cfg tid sid port socks5 m)) = dnstt_plan m \<and>
   ssh_plan (snd (start_ssh_tunnel env cfg tid sid port socks5 m)) = ssh_plan m"
  by (simp add: start_ssh_tunnel_def plan_update_ssh
      split: prod.splits option.splits sum.splits bool.splits)

lemma plan_stop_ssh_tunnel:
  "dnstt_plan (snd (stop_ssh_tunnel env cfg tid sid m)) = dnstt_plan m \<and>
   ssh_plan (snd (stop_ssh_tunnel env cfg tid sid m)) = ssh_plan m"
  by (simp add: stop_ssh_tunnel_def plan_update_ssh
      split: prod.splits option.splits sum.splits bool.splits)

lemma fold_invariant:
  "P s \<Longrightarrow> (\<And>x s. P s \<Longrightarrow> P (f x s)) \<Longrightarrow> P (fold f xs s)"
  by (induction xs arbitrary: s) auto

lemma plan_stop_dnstt_tunnel:
  "dnstt_plan (snd (stop_dnstt_tunnel env cfg tid m)) = dnstt_plan m \<and>
   ssh_plan (snd (stop_dnstt_tunnel env cfg tid m)) = ssh_plan m"
proof (cases "map_of (dnstt_tunnels m) tid")
  case None
  then show ?thesis by (simp add: stop_dnstt_tunnel_def)
next
  case (Some tunnel)
  let ?m1 = "update_dnstt tid (\<lambda>t. t\<lparr>state := STOPPING\<rparr>) m"
  let ?P = "\<lambda>s. dnstt_plan s = dnstt_plan m \<and> ssh_plan s = ssh_plan m"
  have "?P ?m1" by (simp add: plan_update_dnstt)
  then have "?P (fold (\<lambda>ssh s. snd (stop_ssh_tunnel env cfg tid (ssh_id ssh) s))
                  (ssh_tunnels_to_stop tid ?m1) ?m1)"
    by (rule fold_invariant) (simp add: plan_stop_ssh_tunnel)
  then show ?thesis
    by (simp add: stop_dnstt_tunnel_def Some Let_def plan_update_dnstt)
qed

lemma plan_start_ssh_tunnel_eq:
  "start_ssh_tunnel env cfg tid sid port socks5 m = (ok, m') \<Longrightarrow>
   dnstt_plan m' = dnstt_plan m \<and> ssh_plan m' = ssh_plan m"
  using plan_start_ssh_tunnel [of env cfg tid sid port socks5 m] by simp

lemma plan_start_dnstt_tunnel_eq:
  "start_dnstt_tunnel env cfg tid port m = (ok, m') \<Longrightarrow>
   dnstt_plan m' = dnstt_plan m \<and> ssh_plan m' = ssh_plan m"
  using plan_start_dnstt_tunnel [of env cfg tid port m] by simp

lemma plan_stop_ssh_tunnel_eq:
  "stop_ssh_tunnel env cfg tid sid m = (ok, m') \<Longrightarrow>
   dnstt_plan m' = dnstt_plan m \<and> ssh_plan m' = ssh_plan m"
  using plan_stop_ssh_tunnel [of env cfg tid sid m] by simp

lemma plan_stop_dnstt_tunnel_eq:
  "stop_dnstt_tunnel env cfg tid m = (ok, m') \<Longrightarrow>
   dnstt_plan m' = dnstt_plan m \<and> ssh_plan m' = ssh_plan m"
  using plan_stop_dnstt_tunnel [of env cfg tid m] by simp

lemma plan_start_children:
  "dnstt_plan (start_children env cfg tid port m) = dnstt_plan m \<and>
   ssh_plan (start_children env cfg tid port m) = ssh_plan m"
  unfolding start_children_def
  by (rule fold_invariant)
    (auto simp: start_child_def dest: plan_start_ssh_tunnel_eq split: option.splits prod.splits)

lemma plan_start_all:
  "dnstt_plan (start_all env cfg m) = dnstt_plan m \<and> ssh_plan (start_all env cfg m) = ssh_plan m"
  unfolding start_all_def
  by (rule fold_invariant)
    (auto simp: start_parent_def plan_start_children dest: plan_start_dnstt_tunnel_eq
      split: option.splits prod.splits bool.splits)

lemma plan_initialize_tunnels:
  "dnstt_plan (initialize_tunnels env cfg (new_manager c w)) = dnstt_plan (created cfg c w) \<and>
   ssh_plan (initialize_tunnels env cfg (new_manager c w)) = ssh_plan (created cfg c w)"
  by (simp add: initialize_tunnels_def created_def plan_start_all)

lemma stride_step:
  fixes t t' s s' M stride :: int
  assumes "t < t'" "0 \<le> s" "s < M" "0 \<le> s'" "M \<le> stride"
  shows "t * stride + s < t' * stride + s'"
proof -
  from assms have pos: "0 \<le> stride" by linarith
  from assms(1) have "t + 1 \<le> t'" by simp
  then have "(t + 1) * stride \<le> t' * stride"
    using pos by (rule mult_right_mono)
  then have "t * stride + stride \<le> t' * stride"
    by (simp add: algebra_simps)
  with assms show ?thesis by linarith
qed

lemma stride_inj:
  fixes t t' s s' M stride :: int
  assumes "0 \<le> s" "s < M" "0 \<le> s'" "s' < M" "M \<le> stride"
    and eq: "t * stride + s = t' * stride + s'"
  shows "t = t' \<and> s = s'"
proof -
  have "\<not> t < t'"
    using stride_step [of t t' s M s' stride] assms by linarith
  moreover have "\<not> t' < t"
    using stride_step [of t' t s' M s stride] assms by linarith
  ultimately have "t = t'" by linarith
  with eq show ?thesis by simp
qed

lemma ports_of_plan:
  "map (local_port \<circ> snd) (dnstt_tunnels m) = map (snd \<circ> snd) (dnstt_plan m)"
  "map (socks5_port \<circ> snd) (ssh_tunnels m) = map (snd \<circ> snd \<circ> snd) (ssh_plan m)"
  by (simp_all add: dnstt_plan_def ssh_plan_def)

lemma initialize_local_ports:
  "map (local_port \<circ> snd) (dnstt_tunnels (initialize_tunnels env cfg (new_manager c w))) =
   map (\<lambda>t. dnstt_start_port cfg + t) (py_range (dnstt_count cfg))"
  by (simp add: ports_of_plan plan_initialize_tunnels)
    (simp add: dnstt_plan_def created_records comp_def new_dnstt_def)

lemma initialize_socks5_ports:
  "map (socks5_port \<circ> snd) (ssh_tunnels (initialize_tunnels env cfg (new_manager c w))) =
   map (\<lambda>k. socks_start_port cfg + fst k * socks_ports_per_tunnel cfg + snd k)
     (List.product (py_range (dnstt_count cfg)) (py_range (ssh_per_dnstt cfg)))"
  by (simp add: ports_of_plan plan_initialize_tunnels)
    (simp add: ssh_plan_def created_records comp_def new_ssh_def)

text \<open>
  C2, as amended. In the manager that \<open>initialize_tunnels\<close> leaves, when
  \<open>socks_ports_per_tunnel \<ge> ssh_per_dnstt\<close>: the \<open>socks5_port\<close> values of the SSH records
  are pairwise distinct and the \<open>local_port\<close> values of the DNSTT records are pairwise
  distinct; and when moreover the two port ranges do not meet (the DNSTT ports end at
  or before \<open>socks_start_port\<close>, or the SOCKS5 ports end at or before
  \<open>dnstt_start_port\<close>), no \<open>local_port\<close> is a \<open>socks5_port\<close>.
\<close>

theorem port_plan_disjoint:
  assumes stride: "ssh_per_dnstt cfg \<le> socks_ports_per_tunnel cfg"
  shows "distinct (map (socks5_port \<circ> snd)
                     (ssh_tunnels (initialize_tunnels env cfg (new_manager c w)))) \<and>
         distinct (map (local_port \<circ> snd)
                     (dnstt_tunnels (initialize_tunnels env cfg (new_manager c w)))) \<and>
         (dnstt_start_port cfg + dnstt_count cfg \<le> socks_start_port cfg \<or>
          socks_start_port cfg + (dnstt_count cfg - 1) * socks_ports_per_tunnel cfg
            + ssh_per_dnstt cfg \<le> dnstt_start_port cfg \<longrightarrow>
          set (map (local_port \<circ> snd)
                 (dnstt_tunnels (initialize_tunnels env cfg (new_manager c w)))) \<inter>
          set (map (socks5_port \<circ> snd)
                 (ssh_tunnels (initialize_tunnels env cfg (new_manager c w)))) = {})"
proof (intro conjI impI)
  let ?N = "dnstt_count cfg" and ?M = "ssh_per_dnstt cfg" and ?S = "socks_ports_per_tunnel cfg"
  have "inj_on (\<lambda>k. socks_start_port cfg + fst k * ?S + snd k)
          (set (List.product (py_range ?N) (py_range ?M)))"
  proof (rule inj_onI)
    fix k k' :: "int \<times> int"
    assume k: "k \<in> set (List.product (py_range ?N) (py_range ?M))"
      and k': "k' \<in> set (List.product (py_range ?N) (py_range ?M))"
      and eq: "socks_start_port cfg + fst k * ?S + snd k = socks_start_port cfg + fst k' * ?S + snd k'"
    from k k' have b: "0 \<le> snd k" "snd k < ?M" "0 \<le> snd k'" "snd k' < ?M"
      by (auto simp: set_py_range)
    from eq have e: "fst k * ?S + snd k = fst k' * ?S + snd k'" by simp
    have "fst k = fst k' \<and> snd k = snd k'"
      by (rule stride_inj [OF b stride e])
    then show "k = k'" by (simp add: prod_eq_iff)
  qed
  then show "distinct (map (socks5_port \<circ> snd)
                          (ssh_tunnels (initialize_tunnels env cfg (new_manager c w))))"
    unfolding initialize_socks5_ports
    by (simp add: distinct_map distinct_product distinct_py_range)
next
  show "distinct (map (local_port \<circ> snd)
                     (dnstt_tunnels (initialize_tunnels env cfg (new_manager c w))))"
    unfolding initialize_local_ports
    by (simp add: distinct_map distinct_py_range inj_on_def)
next
  let ?N = "dnstt_count cfg" and ?M = "ssh_per_dnstt cfg" and ?S = "socks_ports_per_tunnel cfg"
  assume apart: "dnstt_start_port cfg + ?N \<le> socks_start_port cfg \<or>
    socks_start_port cfg + (?N - 1) * ?S + ?M \<le> dnstt_start_port cfg"
  have "dnstt_start_port cfg + t \<noteq> socks_start_port cfg + t' * ?S + s"
    if t: "0 \<le> t" "t < ?N" and t': "0 \<le> t'" "t' < ?N" and s: "0 \<le> s" "s < ?M" for t t' s
  proof -
    from s stride have pos: "0 \<le> ?S" by linarith
    have lo: "0 \<le> t' * ?S" using t'(1) pos by simp
    from t'(2) have "t' \<le> ?N - 1" by simp
    then have hi: "t' * ?S \<le> (?N - 1) * ?S" using pos by (rule mult_right_mono)
    from apart show ?thesis
    proof
      assume "dnstt_start_port cfg + ?N \<le> socks_start_port cfg"
      with t s lo show ?thesis by linarith
    next
      assume "socks_start_port cfg + (?N - 1) * ?S + ?M \<le> dnstt_start_port cfg"
      with t s hi show ?thesis by linarith
    qed
  qed
  then show "set (map (local_port \<circ> snd)
                    (dnstt_tunnels (initialize_tunnels env cfg (new_manager c w)))) \<inter>
             set (map (socks5_port \<circ> snd)
                    (ssh_tunnels (initialize_tunnels env cfg (new_manager c w)))) = {}"
    unfolding initialize_local_ports initialize_socks5_ports
    by (auto simp: set_py_range)
qed

lemma py_range_2: "py_range 2 = [0, 1]"
  by (simp add: py_range_def eval_nat_numeral)

lemma py_range_3: "py_range 3 = [0, 1, 2]"
  by (simp add: py_range_def eval_nat_numeral)

theorem port_plan_disjoint_witness:
  "ssh_per_dnstt scenario_config \<le> socks_ports_per_tunnel scenario_config \<and>
   distinct (map (socks5_port \<circ> snd)
               (ssh_tunnels (initialize_tunnels sim_env scenario_config
                               (new_manager sim_client sim_start)))) \<and>
   distinct (map (local_port \<circ> snd)
               (dnstt_tunnels (initialize_tunnels sim_env scenario_config
                                 (new_manager sim_client sim_start)))) \<and>
   dnstt_start_port scenario_config + dnstt_count scenario_config
     \<le> socks_start_port scenario_config \<and>
   set (map (local_port \<circ> snd)
          (dnstt_tunnels (initialize_tunnels sim_env scenario_config
                            (new_manager sim_client sim_start)))) \<inter>
   set (map (socks5_port \<circ> snd)
          (ssh_tunnels (initialize_tunnels sim_env scenario_config
                          (new_manager sim_client sim_start)))) = {}"
proof -
  have s: "ssh_per_dnstt scenario_config \<le> socks_ports_per_tunnel scenario_config"
    by (simp add: scenario_config_def)
  have a: "dnstt_start_port scenario_config + dnstt_count scenario_config
             \<le> socks_start_port scenario_config"
    by (simp add: scenario_config_def)
  show ?thesis
    using s a port_plan_disjoint [OF s, of sim_env sim_client sim_start] by blast
qed

text \<open>
  C2 as stated fails: with \<open>dnstt_start_port = socks_start_port = 9090\<close> and the stride
  100 for 3 sessions per tunnel, DNSTT tunnel 0 and SSH session (0, 0) are both assigned
  port 9090.
\<close>

theorem port_plan_overlap_counterexample:
  "ssh_per_dnstt (scenario_config\<lparr>dnstt_start_port := 9090\<rparr>)
     \<le> socks_ports_per_tunnel (scenario_config\<lparr>dnstt_start_port := 9090\<rparr>) \<and>
   9090 \<in> set (map (local_port \<circ> snd)
                 (dnstt_tunnels (initialize_tunnels sim_env
                                   (scenario_config\<lparr>dnstt_start_port := 9090\<rparr>)
                                   (new_manager sim_client sim_start)))) \<and>
   9090 \<in> set (map (socks5_port \<circ> snd)
                 (ssh_tunnels (initialize_tunnels sim_env
                                 (scenario_config\<lparr>dnstt_start_port := 9090\<rparr>)
                                 (new_manager sim_client sim_start))))"
  unfolding initialize_local_ports initialize_socks5_ports
  by (simp add: scenario_config_def py_range_2 py_range_3)

lemma length_plans:
  "length (dnstt_tunnels m) = length (dnstt_plan m)"
  "length (ssh_tunnels m) = length (ssh_plan m)"
  by (simp_all add: dnstt_plan_def ssh_plan_def)

text \<open>
  C4, as amended. In a new manager the first two loops of \<open>initialize_tunnels\<close> store,
  before anything is spawned (the world is untouched), one DNSTT record per
  \<open>tunnel_id\<close> in \<open>range(dnstt_count)\<close> and one SSH record per pair: \<open>dnstt_count\<close> and
  \<open>dnstt_count * ssh_per_dnstt\<close> records for counts that are not negative. Every SSH
  record is created in state STOPPED, every DNSTT record in state STARTING, all without
  a process. The third loop starts children and adds or removes no record.
\<close>

theorem initialize_tunnels_records:
  "dnstt_tunnels (created cfg c w) =
     map (\<lambda>t. (t, new_dnstt cfg t)) (py_range (dnstt_count cfg)) \<and>
   ssh_tunnels (created cfg c w) =
     map (\<lambda>k. (k, new_ssh cfg (fst k) (snd k)))
       (List.product (py_range (dnstt_count cfg)) (py_range (ssh_per_dnstt cfg))) \<and>
   world (created cfg c w) = w \<and>
   (\<forall>kr \<in> set (dnstt_tunnels (created cfg c w)).
      state (snd kr) = STARTING \<and> process (snd kr) = None \<and> pid (snd kr) = None) \<and>
   (\<forall>kr \<in> set (ssh_tunnels (created cfg c w)).
      state (snd kr) = STOPPED \<and> process (snd kr) = None \<and> pid (snd kr) = None) \<and>
   initialize_tunnels env cfg (new_manager c w) = start_all env cfg (created cfg c w) \<and>
   length (dnstt_tunnels (created cfg c w)) = nat (dnstt_count cfg) \<and>
   length (ssh_tunnels (created cfg c w)) = nat (dnstt_count cfg) * nat (ssh_per_dnstt cfg) \<and>
   length (dnstt_tunnels (initialize_tunnels env cfg (new_manager c w))) = nat (dnstt_count cfg) \<and>
   length (ssh_tunnels (initialize_tunnels env cfg (new_manager c w))) =
     nat (dnstt_count cfg) * nat (ssh_per_dnstt cfg)"
proof -
  have l1: "length (dnstt_tunnels (created cfg c w)) = nat (dnstt_count cfg)"
    by (simp add: created_records length_py_range)
  have l2: "length (ssh_tunnels (created cfg c w)) = nat (dnstt_count cfg) * nat (ssh_per_dnstt cfg)"
    by (simp add: created_records length_py_range)
  have l3: "length (dnstt_tunnels (initialize_tunnels env cfg (new_manager c w))) = nat (dnstt_count cfg)"
    using l1 by (simp add: length_plans plan_initialize_tunnels)
  have l4: "length (ssh_tunnels (initialize_tunnels env cfg (new_manager c w))) =
     nat (dnstt_count cfg) * nat (ssh_per_dnstt cfg)"
    using l2 by (simp add: length_plans plan_initialize_tunnels)
  have w: "world (created cfg c w) = w"
    by (simp add: created_records new_manager_def)
  have d: "\<forall>kr \<in> set (dnstt_tunnels (created cfg c w)).
      state (snd kr) = STARTING \<and> process (snd kr) = None \<and> pid (snd kr) = None"
    by (auto simp: created_records new_dnstt_def)
  have s: "\<forall>kr \<in> set (ssh_tunnels (created cfg c w)).
      state (snd kr) = STOPPED \<and> process (snd kr) = None \<and> pid (snd kr) = None"
    by (auto simp: created_records new_ssh_def)
  have i: "initialize_tunnels env cfg (new_manager c w) = start_all env cfg (created cfg c w)"
    by (simp add: initialize_tunnels_def created_def)
  show ?thesis
    using l1 l2 l3 l4 w d s i by (simp add: created_records)
qed

theorem initialize_tunnels_records_witness:
  "map (\<lambda>kr. (fst kr, state (snd kr))) (dnstt_tunnels (created scenario_config sim_client sim_start))
     = [(0, STARTING), (1, STARTING)] \<and>
   map (\<lambda>kr. (fst kr, state (snd kr))) (ssh_tunnels (created scenario_config sim_client sim_start))
     = [((0, 0), STOPPED), ((0, 1), STOPPED), ((0, 2), STOPPED),
        ((1, 0), STOPPED), ((1, 1), STOPPED), ((1, 2), STOPPED)] \<and>
   length (dnstt_tunnels (initialize_tunnels sim_env scenario_config
                            (new_manager sim_client sim_start))) = 2 \<and>
   length (ssh_tunnels (initialize_tunnels sim_env scenario_config
                          (new_manager sim_client sim_start))) = 6"
proof -
  note t = initialize_tunnels_records [of scenario_config sim_client sim_start sim_env]
  have n: "dnstt_count scenario_config = 2" "ssh_per_dnstt scenario_config = 3"
    by (simp_all add: scenario_config_def)
  from t have d: "dnstt_tunnels (created scenario_config sim_client sim_start) =
     map (\<lambda>t. (t, new_dnstt scenario_config t)) (py_range (dnstt_count scenario_config))"
    by (rule conjunct1)
  from t have s: "ssh_tunnels (created scenario_config sim_client sim_start) =
     map (\<lambda>k. (k, new_ssh scenario_config (fst k) (snd k)))
       (List.product (py_range (dnstt_count scenario_config))
          (py_range (ssh_per_dnstt scenario_config)))"
    by (rule conjunct1 [OF conjunct2])
  from t have l: "length (dnstt_tunnels (initialize_tunnels sim_env scenario_config
                            (new_manager sim_client sim_start))) = nat (dnstt_count scenario_config)"
    "length (ssh_tunnels (initialize_tunnels sim_env scenario_config
                          (new_manager sim_client sim_start))) =
       nat (dnstt_count scenario_config) * nat (ssh_per_dnstt scenario_config)"
    by blast+
  show ?thesis
    unfolding d s l n by (simp add: py_range_2 py_range_3 new_dnstt_def new_ssh_def)
qed

text \<open>
  C4 as stated fails for the DNSTT records: the one created for \<open>tunnel_id = 0\<close> is in
  state STARTING, not STOPPED.
\<close>

theorem created_dnstt_state_counterexample:
  "map_option state (map_of (dnstt_tunnels (created scenario_config sim_client sim_start)) 0)
     = Some STARTING"
  by (simp add: created_records scenario_config_def py_range_2 new_dnstt_def)

section \<open>Evaluating the scenarios\<close>

lemmas xui_defs =
  add_socks5_outbound_def remove_outbound_def reload_xray_def list_outbounds_def with_retries_def
  ensure_authenticated_def login_def login_request_def add_request_def add_verdict_def
  add_endpoints_def remove_request_def remove_verdict_def remove_endpoints_def reload_request_def
  reload_verdict_def reload_endpoints_def list_request_def list_endpoints_def get_url_def
  session_headers_def truthy_def

lemma sim_env_simps:
  "popen sim_env w cmd = (Some (next_pid w), w\<lparr>next_pid := Suc (next_pid w)\<rparr>)"
  "poll sim_env w p = (p \<in> set (dead w), w)"
  "terminate sim_env w p = w\<lparr>dead := p # dead w\<rparr>"
  "killpg sim_env w p = w\<lparr>dead := p # dead w\<rparr>"
  "pid_exists sim_env w p = (Inr (p \<notin> set (dead w)), w)"
  "connect_ex sim_env w host port =
     (if socket_raises w then Inl OtherException
      else if port \<in> set (refused w) then Inr 111 else Inr 0, w)"
  "requests_get sim_env w test_url proxy = (if proxy_raises w then Inl ProxyError else Inr (), w)"
  "session_request sim_env = sim_registry"
  "sleep sim_env w d = w"
  "clock sim_env w = 0"
  by (simp_all add: sim_env_def)

lemma sim_poll_port:
  "socket_raises w \<or> port \<in> set (refused w) \<Longrightarrow> poll_port sim_env n port w = (Inr False, w)"
  by (induction n) (auto simp: is_port_listening_def sim_env_simps)

lemma sim_await_port:
  "await_port sim_env port w = (Inr (\<not> socket_raises w \<and> port \<notin> set (refused w)), w)"
  by (auto simp: await_port_def is_port_listening_def sim_env_simps sim_poll_port)

lemmas sim_defs =
  sim_env_simps sim_await_port sim_registry_def sim_start_def sim_client_def scenario_config_def
  sim_url_def answer_def plain_body_def

lemmas manager_defs =
  start_def stop_def initialize_tunnels_def create_dnstt_records_def create_ssh_records_def
  start_all_def start_parent_def start_children_def start_child_def start_dnstt_tunnel_def
  start_ssh_tunnel_def stop_ssh_tunnel_def stop_dnstt_tunnel_def ssh_tunnels_to_stop_def kill_child_def
  new_dnstt_def new_ssh_def update_dnstt_def update_ssh_def
  is_port_listening_def check_dnstt_port_def check_tunnel_health_def
  test_socks5_connectivity_def is_alive_def time_sleep_def
  monitor_pass_def monitor_dnstt_def monitor_ssh_def restart_children_def restart_child_def
  touch_dnstt_def
  touch_ssh_def dnstt_cmd_def ssh_cmd_def ssh_remark_def new_manager_def default_test_url_def
  proxy_url_def

lemmas py_defs = str_def digits10.simps py_range_2 py_range_3



section \<open>What starting and stopping do to the records\<close>

lemma map_entry_twice:
  "AList.map_entry k g (AList.map_entry k f al) = AList.map_entry k (g \<circ> f) al"
  by (induction al) auto

lemma map_entry_absent: "k \<notin> fst ` set al \<Longrightarrow> AList.map_entry k f al = al"
  by (induction al) auto

lemma stop_ssh_tunnel_effect:
  assumes "stop_ssh_tunnel env cfg tid sid m = (ok, m')"
  shows "ok \<and> dnstt_tunnels m' = dnstt_tunnels m \<and>
         running m' = running m \<and> shutdown_event m' = shutdown_event m \<and>
         ssh_tunnels m' =
           AList.map_entry (tid, sid)
             (\<lambda>r. r\<lparr>state := STOPPED, process := None, pid := None, xui_outbound_id := None\<rparr>)
             (ssh_tunnels m)"
proof (cases "map_of (ssh_tunnels m) (tid, sid)")
  case None
  then have "(tid, sid) \<notin> fst ` set (ssh_tunnels m)"
    by (simp add: map_of_eq_None_iff)
  then have "AList.map_entry (tid, sid)
             (\<lambda>r. r\<lparr>state := STOPPED, process := None, pid := None, xui_outbound_id := None\<rparr>)
             (ssh_tunnels m) = ssh_tunnels m"
    by (rule map_entry_absent)
  with None assms show ?thesis by (auto simp: stop_ssh_tunnel_def)
next
  case (Some r)
  with assms show ?thesis
    by (auto simp: stop_ssh_tunnel_def update_ssh_def map_entry_twice comp_def
        split: prod.splits if_splits)
qed

lemma start_ssh_tunnel_effect:
  assumes "start_ssh_tunnel env cfg tid sid port socks5 m = (ok, m')"
  shows "dnstt_tunnels m' = dnstt_tunnels m \<and>
         running m' = running m \<and> shutdown_event m' = shutdown_event m \<and>
         (if ok then
            \<exists>p lc oid. ssh_tunnels m' =
              AList.map_entry (tid, sid)
                (\<lambda>r. r\<lparr>process := Some p, pid := Some p, state := RUNNING, last_check := lc,
                       xui_outbound_id := oid\<rparr>)
                (ssh_tunnels m)
          else ssh_tunnels m' = ssh_tunnels m)"
  using assms
  apply (auto simp: start_ssh_tunnel_def update_ssh_def
      split: prod.splits option.splits sum.splits bool.splits if_splits)
   apply ((rule exI)+, rule refl)+
  done

lemma start_dnstt_tunnel_effect:
  assumes "start_dnstt_tunnel env cfg tid port m = (ok, m')"
  shows "ssh_tunnels m' = ssh_tunnels m \<and> xui_client m' = xui_client m \<and>
         running m' = running m \<and> shutdown_event m' = shutdown_event m \<and>
         (if ok then
            \<exists>p lc. dnstt_tunnels m' =
              AList.map_entry tid
                (\<lambda>r. r\<lparr>process := Some p, pid := Some p, state := RUNNING, last_check := lc\<rparr>)
                (dnstt_tunnels m)
          else dnstt_tunnels m' = dnstt_tunnels m)"
  using assms
  apply (auto simp: start_dnstt_tunnel_def update_dnstt_def
      split: prod.splits option.splits sum.splits bool.splits if_splits)
  apply ((rule exI)+, rule refl)+
  done

lemma map_of_map_entry_at:
  "map_of (AList.map_entry k f al) k' =
     (if k' = k then map_option f (map_of al k) else map_of al k')"
  by (simp add: map_of_map_entry map_option_case)

lemma map_of_ssh_plan:
  "map_of (ssh_plan m) k =
     map_option (\<lambda>r. (tunnel_id r, ssh_id r, socks5_port r)) (map_of (ssh_tunnels m) k)"
proof -
  have "map_of (map (\<lambda>kr. (fst kr, g (snd kr))) al) k = map_option g (map_of al k)"
    for g :: "SSHTunnel \<Rightarrow> int \<times> int \<times> int" and al :: "((int \<times> int) \<times> SSHTunnel) list"
    by (induction al) auto
  then show ?thesis by (simp add: ssh_plan_def)
qed

lemma keyed_lookup:
  assumes "plan_ok cfg m" "map_of (ssh_tunnels m) k = Some r"
  shows "k = (tunnel_id r, ssh_id r)"
proof -
  from assms(2) have "map_of (ssh_plan m) k = Some (tunnel_id r, ssh_id r, socks5_port r)"
    by (simp add: map_of_ssh_plan)
  moreover from assms(1)
  have "\<forall>k e. map_of (ssh_plan m) k = Some e \<longrightarrow> k = (fst e, fst (snd e))"
    by (simp add: plan_ok_def)
  ultimately have "k = (fst (tunnel_id r, ssh_id r, socks5_port r),
                        fst (snd (tunnel_id r, ssh_id r, socks5_port r)))"
    by blast
  then show ?thesis by simp
qed

lemma plan_ok_cong:
  "dnstt_plan m' = dnstt_plan m \<Longrightarrow> ssh_plan m' = ssh_plan m \<Longrightarrow> plan_ok cfg m' = plan_ok cfg m"
  by (simp add: plan_ok_def)

lemma fold_stop_ssh_effect:
  "dnstt_tunnels (fold (\<lambda>ssh s. snd (stop_ssh_tunnel env cfg t (ssh_id ssh) s)) xs m) = dnstt_tunnels m \<and>
   running (fold (\<lambda>ssh s. snd (stop_ssh_tunnel env cfg t (ssh_id ssh) s)) xs m) = running m \<and>
   shutdown_event (fold (\<lambda>ssh s. snd (stop_ssh_tunnel env cfg t (ssh_id ssh) s)) xs m) = shutdown_event m \<and>
   (\<forall>k. map_of (ssh_tunnels (fold (\<lambda>ssh s. snd (stop_ssh_tunnel env cfg t (ssh_id ssh) s)) xs m)) k =
      (if fst k = t \<and> snd k \<in> ssh_id ` set xs
       then map_option (\<lambda>r. r\<lparr>state := STOPPED, process := None, pid := None, xui_outbound_id := None\<rparr>)
              (map_of (ssh_tunnels m) k)
       else map_of (ssh_tunnels m) k))"
proof (induction xs arbitrary: m)
  case Nil
  then show ?case by simp
next
  case (Cons x xs)
  obtain ok m1 where s: "stop_ssh_tunnel env cfg t (ssh_id x) m = (ok, m1)"
    by (cases "stop_ssh_tunnel env cfg t (ssh_id x) m")
  note e = stop_ssh_tunnel_effect [OF s]
  show ?case
    using Cons.IH [of m1] e
    by (auto simp: s map_of_map_entry_at prod_eq_iff option.map_comp comp_def
        split: if_splits)
qed

lemma update_dnstt_fields [simp]:
  "dnstt_tunnels (update_dnstt t f m) = AList.map_entry t f (dnstt_tunnels m)"
  "ssh_tunnels (update_dnstt t f m) = ssh_tunnels m"
  "running (update_dnstt t f m) = running m"
  "shutdown_event (update_dnstt t f m) = shutdown_event m"
  "xui_client (update_dnstt t f m) = xui_client m"
  "world (update_dnstt t f m) = world m"
  by (simp_all add: update_dnstt_def)

lemma update_ssh_fields [simp]:
  "ssh_tunnels (update_ssh k g m) = AList.map_entry k g (ssh_tunnels m)"
  "dnstt_tunnels (update_ssh k g m) = dnstt_tunnels m"
  "running (update_ssh k g m) = running m"
  "shutdown_event (update_ssh k g m) = shutdown_event m"
  "xui_client (update_ssh k g m) = xui_client m"
  "world (update_ssh k g m) = world m"
  by (simp_all add: update_ssh_def)

lemma fold_stop_ssh_lookup:
  "map_of (ssh_tunnels (fold (\<lambda>ssh s. snd (stop_ssh_tunnel env cfg t (ssh_id ssh) s)) xs m)) k =
      (if fst k = t \<and> snd k \<in> ssh_id ` set xs
       then map_option (\<lambda>r. r\<lparr>state := STOPPED, process := None, pid := None, xui_outbound_id := None\<rparr>)
              (map_of (ssh_tunnels m) k)
       else map_of (ssh_tunnels m) k)"
  using fold_stop_ssh_effect [of env cfg t xs m] by blast

lemma stop_dnstt_tunnel_effect:
  assumes p: "plan_ok cfg m" and s: "stop_dnstt_tunnel env cfg t m = (ok, m')"
  shows "ok \<and> running m' = running m \<and> shutdown_event m' = shutdown_event m \<and>
         dnstt_tunnels m' =
           AList.map_entry t (\<lambda>r. r\<lparr>state := STOPPED, process := None, pid := None\<rparr>)
             (dnstt_tunnels m) \<and>
         (\<forall>k. map_of (ssh_tunnels m') k =
            (if fst k = t \<and> map_of (dnstt_tunnels m) t \<noteq> None
             then map_option
                    (\<lambda>r. r\<lparr>state := STOPPED, process := None, pid := None, xui_outbound_id := None\<rparr>)
                    (map_of (ssh_tunnels m) k)
             else map_of (ssh_tunnels m) k))"
proof (cases "map_of (dnstt_tunnels m) t")
  case None
  then have "t \<notin> fst ` set (dnstt_tunnels m)"
    by (simp add: map_of_eq_None_iff)
  then have "AList.map_entry t (\<lambda>r. r\<lparr>state := STOPPED, process := None, pid := None\<rparr>)
               (dnstt_tunnels m) = dnstt_tunnels m"
    by (rule map_entry_absent)
  with None s show ?thesis by (auto simp: stop_dnstt_tunnel_def)
next
  case (Some tunnel)
  let ?m1 = "update_dnstt t (\<lambda>r. r\<lparr>state := STOPPING\<rparr>) m"
  let ?xs = "ssh_tunnels_to_stop t ?m1"
  let ?m2 = "fold (\<lambda>ssh s. snd (stop_ssh_tunnel env cfg t (ssh_id ssh) s)) ?xs ?m1"
  note f = fold_stop_ssh_effect [of env cfg t ?xs ?m1]
  have hit: "snd k \<in> ssh_id ` set ?xs"
    if "fst k = t" "map_of (ssh_tunnels m) k = Some r" for k r
  proof -
    from that(2) have in_list: "(k, r) \<in> set (ssh_tunnels m)" by (rule map_of_SomeD)
    with that(1) have "r \<in> set ?xs"
      by (force simp: ssh_tunnels_to_stop_def)
    moreover from keyed_lookup [OF p that(2)] have "snd k = ssh_id r" by simp
    ultimately show ?thesis by blast
  qed
  have m': "m' = update_dnstt t (\<lambda>r. r\<lparr>state := STOPPED, process := None, pid := None\<rparr>)
                   (?m2\<lparr>world := kill_child env (world ?m2) (process tunnel) (pid tunnel)\<rparr>)"
    and ok: "ok"
    using s Some by (simp_all add: stop_dnstt_tunnel_def Let_def)
  from f have f1: "dnstt_tunnels ?m2 = AList.map_entry t (\<lambda>r. r\<lparr>state := STOPPING\<rparr>) (dnstt_tunnels m)"
    and f2: "running ?m2 = running m" and f3: "shutdown_event ?m2 = shutdown_event m"
    by simp_all
  have f4: "map_of (ssh_tunnels ?m2) k =
      (if fst k = t \<and> snd k \<in> ssh_id ` set ?xs
       then map_option (\<lambda>r. r\<lparr>state := STOPPED, process := None, pid := None, xui_outbound_id := None\<rparr>)
              (map_of (ssh_tunnels m) k)
       else map_of (ssh_tunnels m) k)" for k
    using fold_stop_ssh_lookup [of env cfg t ?xs ?m1 k] by (simp cong: if_cong)
  have d: "dnstt_tunnels m' =
           AList.map_entry t (\<lambda>r. r\<lparr>state := STOPPED, process := None, pid := None\<rparr>)
             (dnstt_tunnels m)"
    by (simp add: m' f1 map_entry_twice comp_def)
  have c: "map_of (ssh_tunnels m') k =
            (if fst k = t
             then map_option
                    (\<lambda>r. r\<lparr>state := STOPPED, process := None, pid := None, xui_outbound_id := None\<rparr>)
                    (map_of (ssh_tunnels m) k)
             else map_of (ssh_tunnels m) k)" for k
  proof (cases "map_of (ssh_tunnels m) k")
    case None
    then show ?thesis using f4 [of k] by (simp add: m')
  next
    case (Some r)
    then show ?thesis using f4 [of k] hit [of k r] by (simp add: m')
  qed
  show ?thesis
    using ok d c Some f2 f3 by (simp add: m')
qed

lemma parent_running_map_entry:
  "parent_running (m\<lparr>dnstt_tunnels := AList.map_entry t f (dnstt_tunnels m)\<rparr>) t' =
     (if t' = t then (case map_of (dnstt_tunnels m) t of Some d \<Rightarrow> state (f d) = RUNNING | None \<Rightarrow> False)
      else parent_running m t')"
  by (simp add: parent_running_def map_of_map_entry_at split: option.splits)

lemma parent_running_cong:
  "dnstt_tunnels m' = dnstt_tunnels m \<Longrightarrow> parent_running m' t = parent_running m t"
  by (simp add: parent_running_def)

lemma children_ok_step:
  assumes ok: "children_ok m"
    and step: "\<And>k r'. map_of (ssh_tunnels m') k = Some r' \<Longrightarrow>
       (map_of (ssh_tunnels m) k = Some r' \<and>
          (parent_running m (fst k) \<longrightarrow> parent_running m' (fst k))) \<or>
       (state r' = STOPPED \<and> process r' = None \<and> pid r' = None) \<or>
       (state r' = RUNNING \<and> parent_running m' (fst k))"
  shows "children_ok m'"
  unfolding children_ok_def
proof (intro allI impI)
  fix k r' assume a: "map_of (ssh_tunnels m') k = Some r'"
  from step [OF a] show "state r' = RUNNING \<and> parent_running m' (fst k) \<or>
          state r' = STOPPED \<and> process r' = None \<and> pid r' = None"
  proof (elim disjE conjE)
    assume b: "map_of (ssh_tunnels m) k = Some r'"
      and c: "parent_running m (fst k) \<longrightarrow> parent_running m' (fst k)"
    from ok b have "state r' = RUNNING \<and> parent_running m (fst k) \<or>
          state r' = STOPPED \<and> process r' = None \<and> pid r' = None"
      unfolding children_ok_def by blast
    with c show ?thesis by blast
  qed simp_all
qed

lemma children_ok_start_dnstt:
  assumes "children_ok m" "start_dnstt_tunnel env cfg t port m = (ok, m')"
  shows "children_ok m'"
proof (rule children_ok_step [OF assms(1)])
  fix k r' assume a: "map_of (ssh_tunnels m') k = Some r'"
  note e = start_dnstt_tunnel_effect [OF assms(2)]
  have pr: "parent_running m t' \<Longrightarrow> parent_running m' t'" for t'
    using e by (cases ok) (auto simp: parent_running_def map_of_map_entry_at split: option.splits)
  from a e pr show "(map_of (ssh_tunnels m) k = Some r' \<and>
          (parent_running m (fst k) \<longrightarrow> parent_running m' (fst k))) \<or>
       (state r' = STOPPED \<and> process r' = None \<and> pid r' = None) \<or>
       (state r' = RUNNING \<and> parent_running m' (fst k))"
    by simp
qed

lemma ok_running_start_dnstt:
  assumes "start_dnstt_tunnel env cfg t port m = (True, m')" "map_of (dnstt_tunnels m) t \<noteq> None"
  shows "parent_running m' t"
  using start_dnstt_tunnel_effect [OF assms(1)] assms(2)
  by (auto simp: parent_running_def map_of_map_entry_at split: option.splits)

lemma children_ok_stop_ssh:
  assumes "children_ok m" "stop_ssh_tunnel env cfg t s m = (ok, m')"
  shows "children_ok m'"
proof (rule children_ok_step [OF assms(1)])
  fix k r' assume a: "map_of (ssh_tunnels m') k = Some r'"
  note e = stop_ssh_tunnel_effect [OF assms(2)]
  from e have pr: "parent_running m' t' = parent_running m t'" for t'
    by (simp add: parent_running_def)
  from a e have "map_of (ssh_tunnels m) k = Some r' \<or>
       (state r' = STOPPED \<and> process r' = None \<and> pid r' = None)"
    by (auto simp: map_of_map_entry_at split: if_splits)
  with pr show "(map_of (ssh_tunnels m) k = Some r' \<and>
          (parent_running m (fst k) \<longrightarrow> parent_running m' (fst k))) \<or>
       (state r' = STOPPED \<and> process r' = None \<and> pid r' = None) \<or>
       (state r' = RUNNING \<and> parent_running m' (fst k))"
    by blast
qed

lemma children_ok_start_ssh:
  assumes "children_ok m" "parent_running m t"
    "start_ssh_tunnel env cfg t s port socks5 m = (ok, m')"
  shows "children_ok m'"
proof (rule children_ok_step [OF assms(1)])
  fix k r' assume a: "map_of (ssh_tunnels m') k = Some r'"
  note e = start_ssh_tunnel_effect [OF assms(3)]
  from e have pr: "parent_running m' t' = parent_running m t'" for t'
    by (simp add: parent_running_def)
  from a e have "map_of (ssh_tunnels m) k = Some r' \<or> (state r' = RUNNING \<and> k = (t, s))"
    by (cases ok) (auto simp: map_of_map_entry_at split: if_splits)
  with pr assms(2) show "(map_of (ssh_tunnels m) k = Some r' \<and>
          (parent_running m (fst k) \<longrightarrow> parent_running m' (fst k))) \<or>
       (state r' = STOPPED \<and> process r' = None \<and> pid r' = None) \<or>
       (state r' = RUNNING \<and> parent_running m' (fst k))"
    by auto
qed

lemma children_ok_stop_dnstt:
  assumes "plan_ok cfg m" "children_ok m" "stop_dnstt_tunnel env cfg t m = (ok, m')"
  shows "children_ok m'"
proof (rule children_ok_step [OF assms(2)])
  fix k r' assume a: "map_of (ssh_tunnels m') k = Some r'"
  note e = stop_dnstt_tunnel_effect [OF assms(1,3)]
  show "(map_of (ssh_tunnels m) k = Some r' \<and>
          (parent_running m (fst k) \<longrightarrow> parent_running m' (fst k))) \<or>
       (state r' = STOPPED \<and> process r' = None \<and> pid r' = None) \<or>
       (state r' = RUNNING \<and> parent_running m' (fst k))"
  proof (cases "fst k = t \<and> map_of (dnstt_tunnels m) t \<noteq> None")
    case True
    with a e show ?thesis by auto
  next
    case False
    with a e have b: "map_of (ssh_tunnels m) k = Some r'" by auto
    have "parent_running m (fst k) \<Longrightarrow> parent_running m' (fst k)"
      using e False
      by (auto simp: parent_running_def map_of_map_entry_at split: option.splits)
    with b show ?thesis by blast
  qed
qed

section \<open>The paths through one iteration of the monitor\<close>

lemma monitor_dnstt_cases [consumes 1, case_names skip raised healthy restarted not_restarted sleep_raised exhausted]:
  assumes "monitor_dnstt env cfg t m = (e, m')"
  obtains
    "e = None" "m' = m"
      "map_of (dnstt_tunnels m) t = None \<or> (\<exists>d. map_of (dnstt_tunnels m) t = Some d \<and> state d \<noteq> RUNNING)"
  | d w x where "map_of (dnstt_tunnels m) t = Some d" "state d = RUNNING"
      "e = Some x" "m' = m\<lparr>world := w\<rparr>"
      "check_dnstt_port env (snd (is_alive env (world m) (pid d))) ''127.0.0.1'' (local_port d) =
         (Inl x, w)"
  | d w where "map_of (dnstt_tunnels m) t = Some d" "state d = RUNNING"
      "e = None" "m' = touch_dnstt env t (m\<lparr>world := w\<rparr>)"
      "fst (is_alive env (world m) (pid d))"
      "check_dnstt_port env (snd (is_alive env (world m) (pid d))) ''127.0.0.1'' (local_port d) =
         (Inr True, w)"
  | d w m2 w3 m3 where "map_of (dnstt_tunnels m) t = Some d" "state d = RUNNING"
      "restart_count d + 1 \<le> max_retries cfg"
      "stop_dnstt_tunnel env cfg t
         (update_dnstt t (\<lambda>r. r\<lparr>state := FAILED, restart_count := restart_count d + 1\<rparr>)
            (m\<lparr>world := w\<rparr>)) = (True, m2)"
      "start_dnstt_tunnel env cfg t (local_port d) (m2\<lparr>world := w3\<rparr>) = (True, m3)"
      "e = None"
      "m' = touch_dnstt env t
              (update_dnstt t (\<lambda>r. r\<lparr>restart_count := 0\<rparr>)
                 (restart_children env cfg t (local_port d) m3))"
      "snd (check_dnstt_port env (snd (is_alive env (world m) (pid d))) ''127.0.0.1'' (local_port d)) = w"
      "sleep env (world m2) (backoff_seconds cfg * of_int (restart_count d + 1)) = w3"
      "\<not> fst (is_alive env (world m) (pid d)) \<or>
       fst (check_dnstt_port env (snd (is_alive env (world m) (pid d))) ''127.0.0.1'' (local_port d)) = Inr False"
  | d w m2 w3 m3 where "map_of (dnstt_tunnels m) t = Some d" "state d = RUNNING"
      "restart_count d + 1 \<le> max_retries cfg"
      "stop_dnstt_tunnel env cfg t
         (update_dnstt t (\<lambda>r. r\<lparr>state := FAILED, restart_count := restart_count d + 1\<rparr>)
            (m\<lparr>world := w\<rparr>)) = (True, m2)"
      "start_dnstt_tunnel env cfg t (local_port d) (m2\<lparr>world := w3\<rparr>) = (False, m3)"
      "e = None" "m' = touch_dnstt env t m3"
      "snd (check_dnstt_port env (snd (is_alive env (world m) (pid d))) ''127.0.0.1'' (local_port d)) = w"
      "sleep env (world m2) (backoff_seconds cfg * of_int (restart_count d + 1)) = w3"
      "\<not> fst (is_alive env (world m) (pid d)) \<or>
       fst (check_dnstt_port env (snd (is_alive env (world m) (pid d))) ''127.0.0.1'' (local_port d)) = Inr False"
  | d w x where "map_of (dnstt_tunnels m) t = Some d" "state d = RUNNING"
      "restart_count d + 1 \<le> max_retries cfg"
      "stop_dnstt_tunnel env cfg t
         (update_dnstt t (\<lambda>r. r\<lparr>state := FAILED, restart_count := restart_count d + 1\<rparr>)
            (m\<lparr>world := w\<rparr>)) = (True, m')"
      "e = Some x" "backoff_seconds cfg * of_int (restart_count d + 1) < 0"
      "snd (check_dnstt_port env (snd (is_alive env (world m) (pid d))) ''127.0.0.1'' (local_port d)) = w"
      "\<not> fst (is_alive env (world m) (pid d)) \<or>
       fst (check_dnstt_port env (snd (is_alive env (world m) (pid d))) ''127.0.0.1'' (local_port d)) = Inr False"
  | d w m2 where "map_of (dnstt_tunnels m) t = Some d" "state d = RUNNING"
      "\<not> restart_count d + 1 \<le> max_retries cfg"
      "stop_dnstt_tunnel env cfg t
         (update_dnstt t (\<lambda>r. r\<lparr>state := FAILED, restart_count := restart_count d + 1\<rparr>)
            (m\<lparr>world := w\<rparr>)) = (True, m2)"
      "e = None" "m' = touch_dnstt env t m2"
      "snd (check_dnstt_port env (snd (is_alive env (world m) (pid d))) ''127.0.0.1'' (local_port d)) = w"
      "\<not> fst (is_alive env (world m) (pid d)) \<or>
       fst (check_dnstt_port env (snd (is_alive env (world m) (pid d))) ''127.0.0.1'' (local_port d)) = Inr False"
proof (cases "map_of (dnstt_tunnels m) t")
  case None
  with assms that(1) show ?thesis by (simp add: monitor_dnstt_def)
next
  case (Some d)
  show ?thesis
  proof (cases "state d = RUNNING")
    case False
    with assms Some that(1) show ?thesis by (simp add: monitor_dnstt_def)
  next
    case run: True
    obtain alive w1 where a: "is_alive env (world m) (pid d) = (alive, w1)"
      by (cases "is_alive env (world m) (pid d)")
    obtain pr w2 where p: "check_dnstt_port env w1 ''127.0.0.1'' (local_port d) = (pr, w2)"
      by (cases "check_dnstt_port env w1 ''127.0.0.1'' (local_port d)")
    let ?m1 = "update_dnstt t (\<lambda>r. r\<lparr>state := FAILED, restart_count := restart_count d + 1\<rparr>)
                 (m\<lparr>world := w2\<rparr>)"
    obtain r m2 where s: "stop_dnstt_tunnel env cfg t ?m1 = (r, m2)"
      by (cases "stop_dnstt_tunnel env cfg t ?m1")
    have r: "r" using s by (auto simp: stop_dnstt_tunnel_def Let_def split: option.splits)
    show ?thesis
    proof (cases pr)
      case (Inl x)
      have "monitor_dnstt env cfg t m = (Some x, m\<lparr>world := w2\<rparr>)"
        by (simp add: monitor_dnstt_def Some run a p Inl)
      with assms have "e = Some x" "m' = m\<lparr>world := w2\<rparr>" by simp_all
      then show ?thesis
        by (intro that(2) [of d x w2]) (simp_all add: Some run a p Inl)
    next
      case (Inr listening)
      show ?thesis
      proof (cases "alive \<and> listening")
        case True
        have "monitor_dnstt env cfg t m = (None, touch_dnstt env t (m\<lparr>world := w2\<rparr>))"
          using True by (simp add: monitor_dnstt_def Some run a p Inr)
        with assms have "e = None" "m' = touch_dnstt env t (m\<lparr>world := w2\<rparr>)" by simp_all
        then show ?thesis
          by (intro that(3) [of d w2]) (simp_all add: Some run a p Inr True)
      next
        case nh: False
        then have failed: "(\<not> alive \<or> \<not> listening) = True" by simp
        have fl: "\<not> fst (is_alive env (world m) (pid d)) \<or>
            fst (check_dnstt_port env (snd (is_alive env (world m) (pid d))) ''127.0.0.1''
                   (local_port d)) = Inr False"
          using nh by (auto simp: a p Inr)
        have sw: "snd (check_dnstt_port env (snd (is_alive env (world m) (pid d))) ''127.0.0.1''
                   (local_port d)) = w2"
          by (simp add: a p)
        show ?thesis
        proof (cases "restart_count d + 1 \<le> max_retries cfg")
          case False
          have "monitor_dnstt env cfg t m = (None, touch_dnstt env t m2)"
            using nh False
            by (simp add: monitor_dnstt_def Some run a p Inr s Let_def)
          with assms have "e = None" "m' = touch_dnstt env t m2" by simp_all
          with Some run False s r sw fl show ?thesis
            by (intro that(7) [of d w2 m2]) simp_all
        next
          case budget: True
          show ?thesis
          proof (cases "backoff_seconds cfg * of_int (restart_count d + 1) < 0")
            case True
            have "monitor_dnstt env cfg t m = (Some ValueError, m2)"
              using nh budget True
              by (simp add: monitor_dnstt_def Some run a p Inr s Let_def time_sleep_def)
            with assms have "e = Some ValueError" "m' = m2" by simp_all
            with Some run budget True s r sw fl show ?thesis
              by (intro that(6) [of d w2 ValueError]) simp_all
          next
            case False
            let ?w3 = "sleep env (world m2) (backoff_seconds cfg * of_int (restart_count d + 1))"
            obtain ok m3 where st:
              "start_dnstt_tunnel env cfg t (local_port d) (m2\<lparr>world := ?w3\<rparr>) = (ok, m3)"
              by (cases "start_dnstt_tunnel env cfg t (local_port d) (m2\<lparr>world := ?w3\<rparr>)")
            show ?thesis
            proof (cases ok)
              case True
              have "monitor_dnstt env cfg t m =
                  (None, touch_dnstt env t
                     (update_dnstt t (\<lambda>r. r\<lparr>restart_count := 0\<rparr>)
                        (restart_children env cfg t (local_port d) m3)))"
                using st nh budget False True
                by (simp add: monitor_dnstt_def Some run a p Inr s Let_def time_sleep_def)
              with assms have "e = None"
                "m' = touch_dnstt env t
                        (update_dnstt t (\<lambda>r. r\<lparr>restart_count := 0\<rparr>)
                           (restart_children env cfg t (local_port d) m3))"
                by simp_all
              with Some run budget s r st True sw fl show ?thesis
                by (intro that(4) [of d w2 m2 ?w3 m3]) simp_all
            next
              case no: False
              have "monitor_dnstt env cfg t m = (None, touch_dnstt env t m3)"
                using st nh budget False no
                by (simp add: monitor_dnstt_def Some run a p Inr s Let_def time_sleep_def)
              with assms have "e = None" "m' = touch_dnstt env t m3" by simp_all
              with Some run budget s r st no sw fl show ?thesis
                by (intro that(5) [of d w2 m2 ?w3 m3]) simp_all
            qed
          qed
        qed
      qed
    qed
  qed
qed

lemma monitor_ssh_cases [consumes 1, case_names skip raised healthy restarted not_restarted sleep_raised exhausted]:
  assumes "monitor_ssh env cfg k m = (e, m')"
  obtains
    "e = None" "m' = m"
      "map_of (ssh_tunnels m) k = None \<or> \<not> parent_running m (fst k) \<or>
       (\<exists>r. map_of (ssh_tunnels m) k = Some r \<and> state r \<noteq> RUNNING)"
  | r w x where "map_of (ssh_tunnels m) k = Some r" "state r = RUNNING" "parent_running m (fst k)"
      "e = Some x" "m' = m\<lparr>world := w\<rparr>"
      "check_tunnel_health env (snd (is_alive env (world m) (pid r))) ''127.0.0.1'' (socks5_port r)
          default_test_url =
         (Inl x, w)"
  | r w where "map_of (ssh_tunnels m) k = Some r" "state r = RUNNING" "parent_running m (fst k)"
      "e = None" "m' = touch_ssh env k (m\<lparr>world := w\<rparr>)"
      "fst (is_alive env (world m) (pid r))"
      "check_tunnel_health env (snd (is_alive env (world m) (pid r))) ''127.0.0.1'' (socks5_port r)
          default_test_url =
         (Inr True, w)"
  | r d w m2 w3 m3 where "map_of (ssh_tunnels m) k = Some r" "state r = RUNNING"
      "parent_running m (fst k)" "map_of (dnstt_tunnels m) (fst k) = Some d"
      "restart_count r + 1 \<le> max_retries cfg"
      "stop_ssh_tunnel env cfg (fst k) (snd k)
         (update_ssh k (\<lambda>t. t\<lparr>state := FAILED, restart_count := restart_count r + 1\<rparr>)
            (m\<lparr>world := w\<rparr>)) = (True, m2)"
      "start_ssh_tunnel env cfg (fst k) (snd k) (local_port d) (socks5_port r)
         (m2\<lparr>world := w3\<rparr>) = (True, m3)"
      "e = None"
      "m' = touch_ssh env k (update_ssh k (\<lambda>t. t\<lparr>restart_count := 0\<rparr>) m3)"
      "snd (check_tunnel_health env (snd (is_alive env (world m) (pid r))) ''127.0.0.1'' (socks5_port r)
          default_test_url) = w"
      "sleep env (world m2) (backoff_seconds cfg * of_int (restart_count r + 1)) = w3"
      "\<not> fst (is_alive env (world m) (pid r)) \<or>
       fst (check_tunnel_health env (snd (is_alive env (world m) (pid r))) ''127.0.0.1'' (socks5_port r)
          default_test_url) = Inr False"
  | r d w m2 w3 m3 where "map_of (ssh_tunnels m) k = Some r" "state r = RUNNING"
      "parent_running m (fst k)" "map_of (dnstt_tunnels m) (fst k) = Some d"
      "restart_count r + 1 \<le> max_retries cfg"
      "stop_ssh_tunnel env cfg (fst k) (snd k)
         (update_ssh k (\<lambda>t. t\<lparr>state := FAILED, restart_count := restart_count r + 1\<rparr>)
            (m\<lparr>world := w\<rparr>)) = (True, m2)"
      "start_ssh_tunnel env cfg (fst k) (snd k) (local_port d) (socks5_port r)
         (m2\<lparr>world := w3\<rparr>) = (False, m3)"
      "e = None" "m' = touch_ssh env k m3"
      "snd (check_tunnel_health env (snd (is_alive env (world m) (pid r))) ''127.0.0.1'' (socks5_port r)
          default_test_url) = w"
      "sleep env (world m2) (backoff_seconds cfg * of_int (restart_count r + 1)) = w3"
      "\<not> fst (is_alive env (world m) (pid r)) \<or>
       fst (check_tunnel_health env (snd (is_alive env (world m) (pid r))) ''127.0.0.1'' (socks5_port r)
          default_test_url) = Inr False"
  | r w x where "map_of (ssh_tunnels m) k = Some r" "state r = RUNNING" "parent_running m (fst k)"
      "restart_count r + 1 \<le> max_retries cfg"
      "stop_ssh_tunnel env cfg (fst k) (snd k)
         (update_ssh k (\<lambda>t. t\<lparr>state := FAILED, restart_count := restart_count r + 1\<rparr>)
            (m\<lparr>world := w\<rparr>)) = (True, m')"
      "e = Some x" "backoff_seconds cfg * of_int (restart_count r + 1) < 0"
      "snd (check_tunnel_health env (snd (is_alive env (world m) (pid r))) ''127.0.0.1'' (socks5_port r)
          default_test_url) = w"
      "\<not> fst (is_alive env (world m) (pid r)) \<or>
       fst (check_tunnel_health env (snd (is_alive env (world m) (pid r))) ''127.0.0.1'' (socks5_port r)
          default_test_url) = Inr False"
  | r w m2 where "map_of (ssh_tunnels m) k = Some r" "state r = RUNNING" "parent_running m (fst k)"
      "\<not> restart_count r + 1 \<le> max_retries cfg"
      "stop_ssh_tunnel env cfg (fst k) (snd k)
         (update_ssh k (\<lambda>t. t\<lparr>state := FAILED, restart_count := restart_count r + 1\<rparr>)
            (m\<lparr>world := w\<rparr>)) = (True, m2)"
      "e = None" "m' = touch_ssh env k m2"
      "snd (check_tunnel_health env (snd (is_alive env (world m) (pid r))) ''127.0.0.1'' (socks5_port r)
          default_test_url) = w"
      "\<not> fst (is_alive env (world m) (pid r)) \<or>
       fst (check_tunnel_health env (snd (is_alive env (world m) (pid r))) ''127.0.0.1'' (socks5_port r)
          default_test_url) = Inr False"
proof (cases "map_of (ssh_tunnels m) k")
  case None
  with assms that(1) show ?thesis by (simp add: monitor_ssh_def)
next
  case (Some r)
  show ?thesis
  proof (cases "map_of (dnstt_tunnels m) (fst k)")
    case None
    with assms Some that(1) show ?thesis by (simp add: monitor_ssh_def parent_running_def)
  next
    case parent: (Some d)
    show ?thesis
    proof (cases "state d = RUNNING \<and> state r = RUNNING")
      case False
      show ?thesis
      proof (cases "state d = RUNNING")
        case True
        with False have "state r \<noteq> RUNNING" by simp
        with assms Some parent True that(1) show ?thesis
          by (simp add: monitor_ssh_def)
      next
        case False
        with assms Some parent that(1) show ?thesis
          by (simp add: monitor_ssh_def parent_running_def)
      qed
    next
      case both: True
      then have pr: "parent_running m (fst k)" and run: "state r = RUNNING"
        and prun: "state d = RUNNING"
        using parent by (simp_all add: parent_running_def)
      obtain alive w1 where a: "is_alive env (world m) (pid r) = (alive, w1)"
        by (cases "is_alive env (world m) (pid r)")
      obtain h w2 where p:
        "check_tunnel_health env w1 ''127.0.0.1'' (socks5_port r) default_test_url = (h, w2)"
        by (cases "check_tunnel_health env w1 ''127.0.0.1'' (socks5_port r) default_test_url")
      let ?m1 = "update_ssh k (\<lambda>t. t\<lparr>state := FAILED, restart_count := restart_count r + 1\<rparr>)
                   (m\<lparr>world := w2\<rparr>)"
      obtain b m2 where s: "stop_ssh_tunnel env cfg (fst k) (snd k) ?m1 = (b, m2)"
        by (cases "stop_ssh_tunnel env cfg (fst k) (snd k) ?m1")
      have b: "b" using stop_ssh_tunnel_effect [OF s] by simp
      show ?thesis
      proof (cases h)
        case (Inl x)
        have "monitor_ssh env cfg k m = (Some x, m\<lparr>world := w2\<rparr>)"
          by (simp add: monitor_ssh_def Some parent run prun a p Inl)
        with assms have "e = Some x" "m' = m\<lparr>world := w2\<rparr>" by simp_all
        then show ?thesis
          by (intro that(2) [of r x w2]) (simp_all add: Some run pr a p Inl)
      next
        case (Inr healthy)
        show ?thesis
        proof (cases "alive \<and> healthy")
          case True
          have "monitor_ssh env cfg k m = (None, touch_ssh env k (m\<lparr>world := w2\<rparr>))"
            using True by (simp add: monitor_ssh_def Some parent run prun a p Inr)
          with assms have "e = None" "m' = touch_ssh env k (m\<lparr>world := w2\<rparr>)" by simp_all
          then show ?thesis
            by (intro that(3) [of r w2]) (simp_all add: Some run pr a p Inr True)
        next
          case nh: False
          have fl: "\<not> fst (is_alive env (world m) (pid r)) \<or>
              fst (check_tunnel_health env (snd (is_alive env (world m) (pid r))) ''127.0.0.1''
                     (socks5_port r) default_test_url) = Inr False"
            using nh by (auto simp: a p Inr)
          have sw: "snd (check_tunnel_health env (snd (is_alive env (world m) (pid r))) ''127.0.0.1''
                     (socks5_port r) default_test_url) = w2"
            by (simp add: a p)
          show ?thesis
          proof (cases "restart_count r + 1 \<le> max_retries cfg")
            case False
            have "monitor_ssh env cfg k m = (None, touch_ssh env k m2)"
              using nh False
              by (simp add: monitor_ssh_def Some parent run prun a p Inr s Let_def)
            with assms have "e = None" "m' = touch_ssh env k m2" by simp_all
            with Some run pr False s b sw fl show ?thesis
              by (intro that(7) [of r w2 m2]) simp_all
          next
            case budget: True
            show ?thesis
            proof (cases "backoff_seconds cfg * of_int (restart_count r + 1) < 0")
              case True
              have "monitor_ssh env cfg k m = (Some ValueError, m2)"
                using nh budget True
                by (simp add: monitor_ssh_def Some parent run prun a p Inr s Let_def time_sleep_def)
              with assms have "e = Some ValueError" "m' = m2" by simp_all
              with Some run pr budget True s b sw fl show ?thesis
                by (intro that(6) [of r w2 ValueError]) simp_all
            next
              case False
              let ?w3 = "sleep env (world m2) (backoff_seconds cfg * of_int (restart_count r + 1))"
              obtain ok m3 where st:
                "start_ssh_tunnel env cfg (fst k) (snd k) (local_port d) (socks5_port r)
                   (m2\<lparr>world := ?w3\<rparr>) = (ok, m3)"
                by (cases "start_ssh_tunnel env cfg (fst k) (snd k) (local_port d) (socks5_port r)
                   (m2\<lparr>world := ?w3\<rparr>)")
              show ?thesis
              proof (cases ok)
                case True
                have "monitor_ssh env cfg k m =
                    (None, touch_ssh env k (update_ssh k (\<lambda>t. t\<lparr>restart_count := 0\<rparr>) m3))"
                  using st nh budget False True
                  by (simp add: monitor_ssh_def Some parent run prun a p Inr s Let_def
                      time_sleep_def)
                with assms have "e = None"
                  "m' = touch_ssh env k (update_ssh k (\<lambda>t. t\<lparr>restart_count := 0\<rparr>) m3)"
                  by simp_all
                with Some run pr parent budget s b st True sw fl show ?thesis
                  by (intro that(4) [of r d w2 m2 ?w3 m3]) simp_all
              next
                case no: False
                have "monitor_ssh env cfg k m = (None, touch_ssh env k m3)"
                  using st nh budget False no
                  by (simp add: monitor_ssh_def Some parent run prun a p Inr s Let_def
                      time_sleep_def)
                with assms have "e = None" "m' = touch_ssh env k m3" by simp_all
                with Some run pr parent budget s b st no sw fl show ?thesis
                  by (intro that(5) [of r d w2 m2 ?w3 m3]) simp_all
              qed
            qed
          qed
        qed
      qed
    qed
  qed
qed

section \<open>The invariant\<close>

lemma children_ok_fields [simp]:
  "children_ok (m\<lparr>world := w\<rparr>) = children_ok m"
  "children_ok (m\<lparr>xui_client := c\<rparr>) = children_ok m"
  "children_ok (m\<lparr>running := b\<rparr>) = children_ok m"
  "children_ok (m\<lparr>shutdown_event := b\<rparr>) = children_ok m"
  by (simp_all add: children_ok_def parent_running_def)

lemma parent_running_fields [simp]:
  "parent_running (m\<lparr>world := w\<rparr>) t = parent_running m t"
  "parent_running (m\<lparr>xui_client := c\<rparr>) t = parent_running m t"
  "parent_running (update_ssh k f m) t = parent_running m t"
  by (simp_all add: parent_running_def)

lemma plan_ok_fields [simp]:
  "plan_ok cfg (m\<lparr>world := w\<rparr>) = plan_ok cfg m"
  "plan_ok cfg (m\<lparr>xui_client := c\<rparr>) = plan_ok cfg m"
  "plan_ok cfg (m\<lparr>running := b\<rparr>) = plan_ok cfg m"
  "plan_ok cfg (m\<lparr>shutdown_event := b\<rparr>) = plan_ok cfg m"
  by (simp_all add: plan_ok_def)

lemma plan_ok_update_dnstt:
  "(\<And>r. tunnel_id (f r) = tunnel_id r \<and> local_port (f r) = local_port r) \<Longrightarrow>
   plan_ok cfg (update_dnstt k f m) = plan_ok cfg m"
  by (rule plan_ok_cong) (simp_all add: plan_update_dnstt)

lemma plan_ok_update_ssh:
  "(\<And>r. tunnel_id (f r) = tunnel_id r \<and> ssh_id (f r) = ssh_id r \<and> socks5_port (f r) = socks5_port r) \<Longrightarrow>
   plan_ok cfg (update_ssh k f m) = plan_ok cfg m"
  by (rule plan_ok_cong) (simp_all add: plan_update_ssh)

lemma parent_running_update_dnstt:
  "(\<And>r. state (f r) = state r) \<Longrightarrow> parent_running (update_dnstt t f m) t' = parent_running m t'"
  by (simp add: parent_running_def map_of_map_entry_at split: option.splits)

lemma children_ok_update_dnstt:
  assumes "\<And>r. state (f r) = state r" "children_ok m"
  shows "children_ok (update_dnstt t f m)"
proof (rule children_ok_step [OF assms(2)])
  fix k r' assume "map_of (ssh_tunnels (update_dnstt t f m)) k = Some r'"
  then show "(map_of (ssh_tunnels m) k = Some r' \<and>
          (parent_running m (fst k) \<longrightarrow> parent_running (update_dnstt t f m) (fst k))) \<or>
       (state r' = STOPPED \<and> process r' = None \<and> pid r' = None) \<or>
       (state r' = RUNNING \<and> parent_running (update_dnstt t f m) (fst k))"
    using assms(1) by (simp add: parent_running_update_dnstt)
qed

lemma children_ok_update_ssh:
  assumes "\<And>r. state (f r) = state r \<and> process (f r) = process r \<and> pid (f r) = pid r"
    "children_ok m"
  shows "children_ok (update_ssh k f m)"
  unfolding children_ok_def
proof (intro allI impI)
  fix k' r' assume a: "map_of (ssh_tunnels (update_ssh k f m)) k' = Some r'"
  then obtain r where r: "map_of (ssh_tunnels m) k' = Some r"
    and s: "state r' = state r" "process r' = process r" "pid r' = pid r"
    using assms(1) by (auto simp: map_of_map_entry_at split: if_splits)
  from assms(2) r have "state r = RUNNING \<and> parent_running m (fst k') \<or>
          state r = STOPPED \<and> process r = None \<and> pid r = None"
    unfolding children_ok_def by blast
  with s show "state r' = RUNNING \<and> parent_running (update_ssh k f m) (fst k') \<or>
          state r' = STOPPED \<and> process r' = None \<and> pid r' = None"
    by simp
qed

text \<open>A child marked FAILED and then stopped.\<close>

lemma children_ok_stop_marked_ssh:
  assumes ok: "children_ok m"
    and s: "stop_ssh_tunnel env cfg (fst k) (snd k) (update_ssh k f (m\<lparr>world := w\<rparr>)) = (b, m')"
  shows "children_ok m' \<and> dnstt_tunnels m' = dnstt_tunnels m"
proof
  note e = stop_ssh_tunnel_effect [OF s]
  from e show "dnstt_tunnels m' = dnstt_tunnels m" by simp
  show "children_ok m'"
  proof (rule children_ok_step [OF ok])
    fix k' r' assume a: "map_of (ssh_tunnels m') k' = Some r'"
    from e have pr: "parent_running m' t' = parent_running m t'" for t'
      by (simp add: parent_running_def)
    from a e have "map_of (ssh_tunnels m) k' = Some r' \<or>
         (state r' = STOPPED \<and> process r' = None \<and> pid r' = None)"
      by (cases "k' = k") (auto simp: map_of_map_entry_at)
    with pr show "(map_of (ssh_tunnels m) k' = Some r' \<and>
            (parent_running m (fst k') \<longrightarrow> parent_running m' (fst k'))) \<or>
         (state r' = STOPPED \<and> process r' = None \<and> pid r' = None) \<or>
         (state r' = RUNNING \<and> parent_running m' (fst k'))"
      by blast
  qed
qed

lemma stop_dnstt_children:
  assumes "plan_ok cfg m" "stop_dnstt_tunnel env cfg t m = (ok, m')"
    "map_of (dnstt_tunnels m) t \<noteq> None" "fst k = t"
  shows "map_of (ssh_tunnels m') k =
           map_option
             (\<lambda>r. r\<lparr>state := STOPPED, process := None, pid := None, xui_outbound_id := None\<rparr>)
             (map_of (ssh_tunnels m) k)"
proof -
  from stop_dnstt_tunnel_effect [OF assms(1,2)]
  have "map_of (ssh_tunnels m') k =
            (if fst k = t \<and> map_of (dnstt_tunnels m) t \<noteq> None
             then map_option
                    (\<lambda>r. r\<lparr>state := STOPPED, process := None, pid := None, xui_outbound_id := None\<rparr>)
                    (map_of (ssh_tunnels m) k)
             else map_of (ssh_tunnels m) k)"
    by blast
  with assms(3,4) show ?thesis by simp
qed

lemma stop_dnstt_others:
  assumes "plan_ok cfg m" "stop_dnstt_tunnel env cfg t m = (ok, m')" "fst k \<noteq> t"
  shows "map_of (ssh_tunnels m') k = map_of (ssh_tunnels m) k"
proof -
  from stop_dnstt_tunnel_effect [OF assms(1,2)]
  have "map_of (ssh_tunnels m') k =
            (if fst k = t \<and> map_of (dnstt_tunnels m) t \<noteq> None
             then map_option
                    (\<lambda>r. r\<lparr>state := STOPPED, process := None, pid := None, xui_outbound_id := None\<rparr>)
                    (map_of (ssh_tunnels m) k)
             else map_of (ssh_tunnels m) k)"
    by blast
  with assms(3) show ?thesis by simp
qed

lemma stop_dnstt_parent:
  assumes "plan_ok cfg m" "stop_dnstt_tunnel env cfg t m = (ok, m')"
  shows "dnstt_tunnels m' =
           AList.map_entry t (\<lambda>r. r\<lparr>state := STOPPED, process := None, pid := None\<rparr>)
             (dnstt_tunnels m)"
  using stop_dnstt_tunnel_effect [OF assms] by blast

text \<open>A parent marked FAILED and then stopped: its children are idle afterwards.\<close>

lemma children_ok_stop_marked_dnstt:
  assumes p: "plan_ok cfg m" and ok: "children_ok m"
    and f: "\<And>r. tunnel_id (f r) = tunnel_id r \<and> local_port (f r) = local_port r"
    and d: "map_of (dnstt_tunnels m) t = Some d"
    and s: "stop_dnstt_tunnel env cfg t (update_dnstt t f (m\<lparr>world := w\<rparr>)) = (b, m')"
  shows "children_ok m' \<and> plan_ok cfg m' \<and> map_of (dnstt_tunnels m') t \<noteq> None \<and>
         (\<forall>k r. fst k = t \<and> map_of (ssh_tunnels m') k = Some r \<longrightarrow>
            state r = STOPPED \<and> process r = None \<and> pid r = None)"
proof -
  let ?m1 = "update_dnstt t f (m\<lparr>world := w\<rparr>)"
  have p1: "plan_ok cfg ?m1" using p f by (simp add: plan_ok_update_dnstt)
  from d have d1: "map_of (dnstt_tunnels ?m1) t \<noteq> None"
    by (simp add: map_of_map_entry_at)
  have idle: "state r = STOPPED \<and> process r = None \<and> pid r = None"
    if "fst k = t" "map_of (ssh_tunnels m') k = Some r" for k r
    using stop_dnstt_children [OF p1 s d1 that(1)] that(2)
    by (cases "map_of (ssh_tunnels ?m1) k") auto
  have other: "map_of (ssh_tunnels m') k = map_of (ssh_tunnels m) k" if "fst k \<noteq> t" for k
    using stop_dnstt_others [OF p1 s that] by simp
  note e = stop_dnstt_parent [OF p1 s]
  have pr: "parent_running m' t' = parent_running m t'" if "t' \<noteq> t" for t'
    using e that by (simp add: parent_running_def map_of_map_entry_at)
  have c: "children_ok m'"
  proof (rule children_ok_step [OF ok])
    fix k r' assume a: "map_of (ssh_tunnels m') k = Some r'"
    show "(map_of (ssh_tunnels m) k = Some r' \<and>
            (parent_running m (fst k) \<longrightarrow> parent_running m' (fst k))) \<or>
         (state r' = STOPPED \<and> process r' = None \<and> pid r' = None) \<or>
         (state r' = RUNNING \<and> parent_running m' (fst k))"
    proof (cases "fst k = t")
      case True
      with idle a show ?thesis by blast
    next
      case False
      with a other pr show ?thesis by simp
    qed
  qed
  have "plan_ok cfg m'"
    using plan_stop_dnstt_tunnel_eq [OF s] p1 by (simp add: plan_ok_def)
  moreover have "map_of (dnstt_tunnels m') t \<noteq> None"
    using e d by (simp add: map_of_map_entry_at)
  ultimately show ?thesis using c idle by blast
qed

lemma restart_child_absent:
  "map_of (ssh_tunnels s) (t, sid) = None \<Longrightarrow>
   restart_child env cfg t port sid s = s\<lparr>world := sleep env (world s) (1 / 2)\<rparr>"
  by (simp add: restart_child_def)

lemma restart_child_present:
  assumes "map_of (ssh_tunnels s) (t, sid) = Some r"
  obtains ok m1 where
    "start_ssh_tunnel env cfg t sid port
       (socks_start_port cfg + t * socks_ports_per_tunnel cfg + sid)
       (update_ssh (t, sid) (\<lambda>x. x\<lparr>state := STOPPED\<rparr>) s) = (ok, m1)"
    "restart_child env cfg t port sid s = m1\<lparr>world := sleep env (world m1) (1 / 2)\<rparr>"
proof -
  obtain ok m1 where st: "start_ssh_tunnel env cfg t sid port
       (socks_start_port cfg + t * socks_ports_per_tunnel cfg + sid)
       (update_ssh (t, sid) (\<lambda>x. x\<lparr>state := STOPPED\<rparr>) s) = (ok, m1)"
    by (cases "start_ssh_tunnel env cfg t sid port
       (socks_start_port cfg + t * socks_ports_per_tunnel cfg + sid)
       (update_ssh (t, sid) (\<lambda>x. x\<lparr>state := STOPPED\<rparr>) s)")
  with assms have "restart_child env cfg t port sid s = m1\<lparr>world := sleep env (world m1) (1 / 2)\<rparr>"
    by (simp add: restart_child_def)
  with st that show ?thesis by blast
qed

lemma restart_child_frame:
  "dnstt_tunnels (restart_child env cfg t port sid s) = dnstt_tunnels s \<and>
   running (restart_child env cfg t port sid s) = running s \<and>
   shutdown_event (restart_child env cfg t port sid s) = shutdown_event s \<and>
   (k \<noteq> (t, sid) \<longrightarrow>
      map_of (ssh_tunnels (restart_child env cfg t port sid s)) k = map_of (ssh_tunnels s) k)"
proof (cases "map_of (ssh_tunnels s) (t, sid)")
  case None
  then show ?thesis by (simp add: restart_child_absent)
next
  case (Some r)
  then obtain ok m1 where st: "start_ssh_tunnel env cfg t sid port
       (socks_start_port cfg + t * socks_ports_per_tunnel cfg + sid)
       (update_ssh (t, sid) (\<lambda>x. x\<lparr>state := STOPPED\<rparr>) s) = (ok, m1)"
    and rc: "restart_child env cfg t port sid s = m1\<lparr>world := sleep env (world m1) (1 / 2)\<rparr>"
    by (rule restart_child_present)
  from start_ssh_tunnel_effect [OF st] show ?thesis
    by (cases ok) (auto simp: rc map_of_map_entry_at)
qed

lemma plan_restart_child:
  "dnstt_plan (restart_child env cfg t port sid s) = dnstt_plan s \<and>
   ssh_plan (restart_child env cfg t port sid s) = ssh_plan s"
proof (cases "map_of (ssh_tunnels s) (t, sid)")
  case None
  then show ?thesis by (simp add: restart_child_absent)
next
  case (Some r)
  then obtain ok m1 where st: "start_ssh_tunnel env cfg t sid port
       (socks_start_port cfg + t * socks_ports_per_tunnel cfg + sid)
       (update_ssh (t, sid) (\<lambda>x. x\<lparr>state := STOPPED\<rparr>) s) = (ok, m1)"
    and rc: "restart_child env cfg t port sid s = m1\<lparr>world := sleep env (world m1) (1 / 2)\<rparr>"
    by (rule restart_child_present)
  from plan_start_ssh_tunnel_eq [OF st] show ?thesis
    by (simp add: rc plan_update_ssh)
qed

lemma plan_restart_children:
  "dnstt_plan (restart_children env cfg t port m) = dnstt_plan m \<and>
   ssh_plan (restart_children env cfg t port m) = ssh_plan m"
  unfolding restart_children_def
  by (rule fold_invariant) (simp_all add: plan_restart_child)

lemma children_ok_restart_child:
  assumes ok: "children_ok s" and pr: "parent_running s t"
    and idle: "\<And>r. map_of (ssh_tunnels s) (t, sid) = Some r \<Longrightarrow>
                 state r = STOPPED \<and> process r = None \<and> pid r = None"
  shows "children_ok (restart_child env cfg t port sid s)"
proof (cases "map_of (ssh_tunnels s) (t, sid)")
  case None
  with ok show ?thesis by (simp add: restart_child_absent)
next
  case (Some r)
  then obtain b m1 where st: "start_ssh_tunnel env cfg t sid port
       (socks_start_port cfg + t * socks_ports_per_tunnel cfg + sid)
       (update_ssh (t, sid) (\<lambda>x. x\<lparr>state := STOPPED\<rparr>) s) = (b, m1)"
    and rc: "restart_child env cfg t port sid s = m1\<lparr>world := sleep env (world m1) (1 / 2)\<rparr>"
    by (rule restart_child_present)
  let ?s1 = "update_ssh (t, sid) (\<lambda>x. x\<lparr>state := STOPPED\<rparr>) s"
  have "children_ok ?s1"
  proof (rule children_ok_step [OF ok])
    fix k r' assume a: "map_of (ssh_tunnels ?s1) k = Some r'"
    show "(map_of (ssh_tunnels s) k = Some r' \<and>
            (parent_running s (fst k) \<longrightarrow> parent_running ?s1 (fst k))) \<or>
         (state r' = STOPPED \<and> process r' = None \<and> pid r' = None) \<or>
         (state r' = RUNNING \<and> parent_running ?s1 (fst k))"
    proof (cases "k = (t, sid)")
      case True
      with a Some idle [OF Some] show ?thesis by (auto simp: map_of_map_entry_at)
    next
      case False
      with a show ?thesis by (simp add: map_of_map_entry_at)
    qed
  qed
  moreover have "parent_running ?s1 t" using pr by simp
  ultimately have "children_ok m1" using st by (rule children_ok_start_ssh)
  then show ?thesis by (simp add: rc)
qed

lemma children_ok_restart_fold:
  assumes "children_ok m" "parent_running m t" "distinct sids"
    "\<And>sid r. sid \<in> set sids \<Longrightarrow> map_of (ssh_tunnels m) (t, sid) = Some r \<Longrightarrow>
       state r = STOPPED \<and> process r = None \<and> pid r = None"
  shows "children_ok (fold (restart_child env cfg t port) sids m)"
  using assms
proof (induction sids arbitrary: m)
  case Nil
  then show ?case by simp
next
  case (Cons sid sids)
  let ?m1 = "restart_child env cfg t port sid m"
  have c: "children_ok ?m1"
    using Cons.prems(1,2) Cons.prems(4) [of sid] by (intro children_ok_restart_child) simp_all
  have p: "parent_running ?m1 t"
    using Cons.prems(2) restart_child_frame [of env cfg t port sid m]
    by (simp add: parent_running_def)
  have i: "state r = STOPPED \<and> process r = None \<and> pid r = None"
    if "sid' \<in> set sids" "map_of (ssh_tunnels ?m1) (t, sid') = Some r" for sid' r
  proof -
    from that(1) Cons.prems(3) have "(t, sid') \<noteq> (t, sid)" by auto
    with restart_child_frame [of env cfg t port sid m "(t, sid')"]
    have "map_of (ssh_tunnels ?m1) (t, sid') = map_of (ssh_tunnels m) (t, sid')" by simp
    with that Cons.prems(4) [of sid' r] show ?thesis by simp
  qed
  from Cons.prems(3) have d: "distinct sids" by simp
  show ?case using Cons.IH [OF c p d i] by simp
qed

lemma children_ok_restart_children:
  assumes "children_ok m" "parent_running m t"
    "\<And>k r. fst k = t \<Longrightarrow> map_of (ssh_tunnels m) k = Some r \<Longrightarrow>
       state r = STOPPED \<and> process r = None \<and> pid r = None"
  shows "children_ok (restart_children env cfg t port m)"
  unfolding restart_children_def
  using assms(1,2) distinct_py_range
proof (rule children_ok_restart_fold)
  fix sid r assume "map_of (ssh_tunnels m) (t, sid) = Some r"
  with assms(3) [of "(t, sid)" r]
  show "state r = STOPPED \<and> process r = None \<and> pid r = None" by simp
qed

lemma children_ok_start_child:
  assumes "children_ok s" "parent_running s t"
  shows "children_ok (start_child env cfg t port sid s) \<and>
         parent_running (start_child env cfg t port sid s) t"
proof (cases "map_of (ssh_tunnels s) (t, sid)")
  case None
  with assms show ?thesis by (simp add: start_child_def)
next
  case (Some r)
  obtain ok m1 where st: "start_ssh_tunnel env cfg t sid port (socks5_port r) s = (ok, m1)"
    by (cases "start_ssh_tunnel env cfg t sid port (socks5_port r) s")
  have "children_ok m1" using assms st by (rule children_ok_start_ssh)
  moreover have "parent_running m1 t"
    using start_ssh_tunnel_effect [OF st] assms(2) by (simp add: parent_running_def)
  ultimately show ?thesis using Some st by (simp add: start_child_def)
qed

lemma children_ok_start_children:
  assumes "children_ok m" "parent_running m t"
  shows "children_ok (start_children env cfg t port m)"
proof -
  have "children_ok (start_children env cfg t port m) \<and>
        parent_running (start_children env cfg t port m) t"
    unfolding start_children_def
    by (rule fold_invariant) (simp_all add: assms children_ok_start_child)
  then show ?thesis by simp
qed

lemma touch_dnstt_ok:
  "children_ok m \<Longrightarrow> children_ok (touch_dnstt env t m)"
  "plan_ok cfg (touch_dnstt env t m) = plan_ok cfg m"
  by (simp_all add: touch_dnstt_def children_ok_update_dnstt plan_ok_update_dnstt)

lemma touch_ssh_ok:
  "children_ok m \<Longrightarrow> children_ok (touch_ssh env k m)"
  "plan_ok cfg (touch_ssh env k m) = plan_ok cfg m"
  by (simp_all add: touch_ssh_def children_ok_update_ssh plan_ok_update_ssh)

lemma plan_ok_start_dnstt:
  "start_dnstt_tunnel env cfg t port m = (ok, m') \<Longrightarrow> plan_ok cfg m' = plan_ok cfg m"
  by (rule plan_ok_cong) (simp_all add: plan_start_dnstt_tunnel_eq)

lemma plan_ok_start_ssh:
  "start_ssh_tunnel env cfg t s port socks5 m = (ok, m') \<Longrightarrow> plan_ok cfg m' = plan_ok cfg m"
  by (rule plan_ok_cong) (simp_all add: plan_start_ssh_tunnel_eq)

lemma plan_ok_stop_ssh:
  "stop_ssh_tunnel env cfg t s m = (ok, m') \<Longrightarrow> plan_ok cfg m' = plan_ok cfg m"
  by (rule plan_ok_cong) (simp_all add: plan_stop_ssh_tunnel_eq)

lemma plan_ok_stop_dnstt:
  "stop_dnstt_tunnel env cfg t m = (ok, m') \<Longrightarrow> plan_ok cfg m' = plan_ok cfg m"
  by (rule plan_ok_cong) (simp_all add: plan_stop_dnstt_tunnel_eq)

lemma plan_ok_restart_children:
  "plan_ok cfg (restart_children env cfg t port m) = plan_ok cfg m"
  by (rule plan_ok_cong) (simp_all add: plan_restart_children)

lemma invariant_monitor_dnstt:
  assumes p: "plan_ok cfg m" and c: "children_ok m"
    and s: "monitor_dnstt env cfg t m = (e, m')"
  shows "plan_ok cfg m' \<and> children_ok m'"
  using s
proof (cases rule: monitor_dnstt_cases)
  case skip
  with p c show ?thesis by simp
next
  case (raised d w x)
  with p c show ?thesis by simp
next
  case (healthy d w)
  with p c show ?thesis by (simp add: touch_dnstt_ok)
next
  case (restarted d w m2 w3 m3)
  note x = children_ok_stop_marked_dnstt [OF p c _ restarted(1) restarted(4)]
  from x have c2: "children_ok m2" and p2: "plan_ok cfg m2"
    and d2: "map_of (dnstt_tunnels m2) t \<noteq> None"
    by simp_all
  have i2: "state r = STOPPED \<and> process r = None \<and> pid r = None"
    if "fst k = t" "map_of (ssh_tunnels m2) k = Some r" for k r
    using x that by (cases k) auto
  note e3 = start_dnstt_tunnel_effect [OF restarted(5)]
  have c3: "children_ok m3"
    using children_ok_start_dnstt [OF _ restarted(5)] c2 by simp
  have p3: "plan_ok cfg m3" using plan_ok_start_dnstt [OF restarted(5)] p2 by simp
  have r3: "parent_running m3 t"
    using ok_running_start_dnstt [OF restarted(5)] d2 by simp
  have i3: "state r = STOPPED \<and> process r = None \<and> pid r = None"
    if "fst k = t" "map_of (ssh_tunnels m3) k = Some r" for k r
    using i2 [of k r] that e3 by simp
  have "children_ok (restart_children env cfg t (local_port d) m3)"
    using c3 r3 i3 by (rule children_ok_restart_children)
  with p3 restarted(7) show ?thesis
    by (simp add: touch_dnstt_ok children_ok_update_dnstt plan_ok_update_dnstt
        plan_ok_restart_children)
next
  case (not_restarted d w m2 w3 m3)
  from children_ok_stop_marked_dnstt [OF p c _ not_restarted(1) not_restarted(4)]
  have c2: "children_ok m2" and p2: "plan_ok cfg m2" by simp_all
  have "children_ok m3"
    using children_ok_start_dnstt [OF _ not_restarted(5)] c2 by simp
  moreover have "plan_ok cfg m3" using plan_ok_start_dnstt [OF not_restarted(5)] p2 by simp
  ultimately show ?thesis using not_restarted(7) by (simp add: touch_dnstt_ok)
next
  case (sleep_raised d w x)
  from children_ok_stop_marked_dnstt [OF p c _ sleep_raised(1) sleep_raised(4)]
  show ?thesis by simp
next
  case (exhausted d w m2)
  from children_ok_stop_marked_dnstt [OF p c _ exhausted(1) exhausted(4)]
  have "children_ok m2" "plan_ok cfg m2" by simp_all
  with exhausted(6) show ?thesis by (simp add: touch_dnstt_ok)
qed

lemma invariant_monitor_ssh:
  assumes p: "plan_ok cfg m" and c: "children_ok m"
    and s: "monitor_ssh env cfg k m = (e, m')"
  shows "plan_ok cfg m' \<and> children_ok m'"
  using s
proof (cases rule: monitor_ssh_cases)
  case skip
  with p c show ?thesis by simp
next
  case (raised r w x)
  with p c show ?thesis by simp
next
  case (healthy r w)
  with p c show ?thesis by (simp add: touch_ssh_ok)
next
  case (restarted r d w m2 w3 m3)
  from children_ok_stop_marked_ssh [OF c restarted(6)]
  have c2: "children_ok m2" and d2: "dnstt_tunnels m2 = dnstt_tunnels m" by simp_all
  have p2: "plan_ok cfg m2"
    using plan_ok_stop_ssh [OF restarted(6)] p by (simp add: plan_ok_update_ssh)
  have r2: "parent_running (m2\<lparr>world := w3\<rparr>) (fst k)"
    using restarted(3) d2 by (simp add: parent_running_def)
  have "children_ok m3"
    using children_ok_start_ssh [OF _ r2 restarted(7)] c2 by simp
  moreover have "plan_ok cfg m3" using plan_ok_start_ssh [OF restarted(7)] p2 by simp
  ultimately show ?thesis using restarted(9)
    by (simp add: touch_ssh_ok children_ok_update_ssh plan_ok_update_ssh)
next
  case (not_restarted r d w m2 w3 m3)
  from children_ok_stop_marked_ssh [OF c not_restarted(6)]
  have c2: "children_ok m2" and d2: "dnstt_tunnels m2 = dnstt_tunnels m" by simp_all
  have p2: "plan_ok cfg m2"
    using plan_ok_stop_ssh [OF not_restarted(6)] p by (simp add: plan_ok_update_ssh)
  have r2: "parent_running (m2\<lparr>world := w3\<rparr>) (fst k)"
    using not_restarted(3) d2 by (simp add: parent_running_def)
  have "children_ok m3"
    using children_ok_start_ssh [OF _ r2 not_restarted(7)] c2 by simp
  moreover have "plan_ok cfg m3" using plan_ok_start_ssh [OF not_restarted(7)] p2 by simp
  ultimately show ?thesis using not_restarted(9) by (simp add: touch_ssh_ok)
next
  case (sleep_raised r w x)
  from children_ok_stop_marked_ssh [OF c sleep_raised(5)]
  have "children_ok m'" by simp
  moreover have "plan_ok cfg m'"
    using plan_ok_stop_ssh [OF sleep_raised(5)] p by (simp add: plan_ok_update_ssh)
  ultimately show ?thesis by simp
next
  case (exhausted r w m2)
  from children_ok_stop_marked_ssh [OF c exhausted(5)]
  have "children_ok m2" by simp
  moreover have "plan_ok cfg m2"
    using plan_ok_stop_ssh [OF exhausted(5)] p by (simp add: plan_ok_update_ssh)
  ultimately show ?thesis using exhausted(7) by (simp add: touch_ssh_ok)
qed

lemma for_each_invariant:
  assumes "P m" "\<And>k s e s'. P s \<Longrightarrow> body k s = (e, s') \<Longrightarrow> P s'"
    "for_each body ks m = (e, m')"
  shows "P m'"
  using assms(1,3)
proof (induction ks arbitrary: m)
  case Nil
  then show ?case by simp
next
  case (Cons k ks)
  obtain e1 m1 where b: "body k m = (e1, m1)" by (cases "body k m")
  from assms(2) [OF Cons.prems(1) b] have p1: "P m1" .
  show ?case
  proof (cases e1)
    case None
    with Cons.prems(2) b have "for_each body ks m1 = (e, m')" by simp
    with Cons.IH p1 show ?thesis by blast
  next
    case (Some x)
    with Cons.prems(2) b have "m' = m1" by simp
    with p1 show ?thesis by simp
  qed
qed

lemma invariant_monitor_pass:
  assumes "plan_ok cfg m" "children_ok m"
  shows "plan_ok cfg (monitor_pass env cfg m) \<and> children_ok (monitor_pass env cfg m)"
proof -
  let ?P = "\<lambda>s. plan_ok cfg s \<and> children_ok s"
  obtain e1 m1 where l1: "for_each (monitor_dnstt env cfg) (map fst (dnstt_tunnels m)) m = (e1, m1)"
    by (cases "for_each (monitor_dnstt env cfg) (map fst (dnstt_tunnels m)) m")
  have p1: "?P m1"
    by (rule for_each_invariant [where P = ?P, OF _ _ l1])
      (use assms in \<open>auto dest: invariant_monitor_dnstt\<close>)
  obtain e2 m2 where l2: "for_each (monitor_ssh env cfg) (map fst (ssh_tunnels m1)) m1 = (e2, m2)"
    by (cases "for_each (monitor_ssh env cfg) (map fst (ssh_tunnels m1)) m1")
  have p2: "?P m2"
    by (rule for_each_invariant [where P = ?P, OF _ _ l2])
      (use p1 in \<open>auto dest: invariant_monitor_ssh\<close>)
  show ?thesis
    using p1 p2 l1 l2 by (cases e1; cases e2) (simp_all add: monitor_pass_def)
qed

lemma fold_update_lookup:
  "map_of (fold (\<lambda>k. AList.update k (f k)) ks al) k =
     (if k \<in> set ks then Some (f k) else map_of al k)"
  by (induction ks arbitrary: al) (auto simp: update_conv')

lemma fold_update_keys:
  "fst ` set (fold (\<lambda>k. AList.update k (f k)) ks al) = fst ` set al \<union> set ks"
  by (induction ks arbitrary: al) (auto simp: dom_update)

lemma create_dnstt_records_eq:
  "create_dnstt_records cfg m =
     m\<lparr>dnstt_tunnels := fold (\<lambda>t. AList.update t (new_dnstt cfg t))
                           (py_range (dnstt_count cfg)) (dnstt_tunnels m)\<rparr>"
  by (simp add: create_dnstt_records_def fold_dnstt_field)

lemma create_ssh_records_eq:
  "create_ssh_records cfg m =
     m\<lparr>ssh_tunnels := fold (\<lambda>k. AList.update k (new_ssh cfg (fst k) (snd k)))
                         (List.product (py_range (dnstt_count cfg)) (py_range (ssh_per_dnstt cfg)))
                         (ssh_tunnels m)\<rparr>"
  by (simp add: create_ssh_records_product fold_ssh_field)

lemma keys_of_plans:
  "fst ` set (dnstt_plan m) = fst ` set (dnstt_tunnels m)"
  "fst ` set (ssh_plan m) = fst ` set (ssh_tunnels m)"
  by (force simp: dnstt_plan_def ssh_plan_def)+

lemma invariant_create:
  assumes "plan_ok cfg m"
  shows "plan_ok cfg (create_ssh_records cfg (create_dnstt_records cfg m)) \<and>
         children_ok (create_ssh_records cfg (create_dnstt_records cfg m))"
proof -
  let ?ks = "List.product (py_range (dnstt_count cfg)) (py_range (ssh_per_dnstt cfg))"
  let ?m' = "create_ssh_records cfg (create_dnstt_records cfg m)"
  from assms have dom: "fst ` set (ssh_tunnels m) \<subseteq> set ?ks"
    and ddom: "fst ` set (dnstt_tunnels m) \<subseteq> set (py_range (dnstt_count cfg))"
    by (simp_all add: plan_ok_def keys_of_plans)
  have look: "map_of (ssh_tunnels ?m') k =
      (if k \<in> set ?ks then Some (new_ssh cfg (fst k) (snd k)) else None)" for k
  proof (cases "k \<in> set ?ks")
    case True
    then show ?thesis
      by (simp add: create_ssh_records_eq create_dnstt_records_eq fold_update_lookup)
  next
    case False
    with dom have "k \<notin> fst ` set (ssh_tunnels m)" by blast
    then have "map_of (ssh_tunnels m) k = None" by (simp add: map_of_eq_None_iff)
    with False show ?thesis
      by (simp add: create_ssh_records_eq create_dnstt_records_eq fold_update_lookup)
  qed
  have c: "children_ok ?m'"
    unfolding children_ok_def
    by (auto simp: look new_ssh_def split: if_splits)
  have k1: "\<forall>k e. map_of (ssh_plan ?m') k = Some e \<longrightarrow> k = (fst e, fst (snd e))"
    by (auto simp: map_of_ssh_plan look new_ssh_def split: if_splits)
  have k2: "fst ` set (dnstt_plan ?m') \<subseteq> set (py_range (dnstt_count cfg))"
    using ddom
    by (simp add: keys_of_plans create_ssh_records_eq create_dnstt_records_eq fold_update_keys)
  have k3: "fst ` set (ssh_plan ?m') \<subseteq> set ?ks"
    using dom
    by (simp add: keys_of_plans create_ssh_records_eq create_dnstt_records_eq fold_update_keys)
  from k1 k2 k3 c show ?thesis by (simp add: plan_ok_def)
qed

lemma plan_ok_start_children:
  "plan_ok cfg (start_children env cfg t port m) = plan_ok cfg m"
  by (rule plan_ok_cong) (simp_all add: plan_start_children)

lemma invariant_start_parent:
  assumes "plan_ok cfg s \<and> children_ok s"
  shows "plan_ok cfg (start_parent env cfg t s) \<and> children_ok (start_parent env cfg t s)"
proof (cases "map_of (dnstt_tunnels s) t")
  case None
  with assms show ?thesis by (simp add: start_parent_def)
next
  case (Some d)
  obtain ok s1 where st: "start_dnstt_tunnel env cfg t (local_port d) s = (ok, s1)"
    by (cases "start_dnstt_tunnel env cfg t (local_port d) s")
  have c1: "children_ok s1" using children_ok_start_dnstt [OF _ st] assms by simp
  have p1: "plan_ok cfg s1" using plan_ok_start_dnstt [OF st] assms by simp
  show ?thesis
  proof (cases ok)
    case False
    with Some st c1 p1 show ?thesis by (simp add: start_parent_def)
  next
    case True
    with st Some have "parent_running s1 t"
      using ok_running_start_dnstt [of env cfg t "local_port d" s s1] by simp
    then have "children_ok (start_children env cfg t (local_port d)
                  (s1\<lparr>world := sleep env (world s1) 1\<rparr>))"
      using c1 by (intro children_ok_start_children) simp_all
    moreover have "plan_ok cfg (start_children env cfg t (local_port d)
                  (s1\<lparr>world := sleep env (world s1) 1\<rparr>))"
      using p1 by (simp add: plan_ok_start_children)
    ultimately show ?thesis using True Some st by (simp add: start_parent_def)
  qed
qed

lemma invariant_initialize:
  assumes "plan_ok cfg m"
  shows "plan_ok cfg (initialize_tunnels env cfg m) \<and> children_ok (initialize_tunnels env cfg m)"
  unfolding initialize_tunnels_def start_all_def
  by (rule fold_invariant) (simp_all add: invariant_create assms invariant_start_parent)

lemma invariant_start:
  assumes "plan_ok cfg m" "children_ok m"
  shows "plan_ok cfg (start env cfg m) \<and> children_ok (start env cfg m)"
  using assms by (simp add: start_def invariant_initialize)

lemma invariant_stop:
  assumes "plan_ok cfg m" "children_ok m"
  shows "plan_ok cfg (stop env cfg m) \<and> children_ok (stop env cfg m)"
proof (cases "running m")
  case False
  with assms show ?thesis by (simp add: stop_def)
next
  case True
  have "plan_ok cfg (fold (\<lambda>tid s. snd (stop_dnstt_tunnel env cfg tid s))
             (map fst (dnstt_tunnels m)) (m\<lparr>running := False, shutdown_event := True\<rparr>)) \<and>
        children_ok (fold (\<lambda>tid s. snd (stop_dnstt_tunnel env cfg tid s))
             (map fst (dnstt_tunnels m)) (m\<lparr>running := False, shutdown_event := True\<rparr>))"
  proof (rule fold_invariant)
    show "plan_ok cfg (m\<lparr>running := False, shutdown_event := True\<rparr>) \<and>
          children_ok (m\<lparr>running := False, shutdown_event := True\<rparr>)"
      using assms by simp
  next
    fix x and s :: "'a TunnelManager"
    assume a: "plan_ok cfg s \<and> children_ok s"
    obtain ok s' where st: "stop_dnstt_tunnel env cfg x s = (ok, s')"
      by (cases "stop_dnstt_tunnel env cfg x s")
    from a children_ok_stop_dnstt [OF _ _ st] plan_ok_stop_dnstt [OF st]
    show "plan_ok cfg (snd (stop_dnstt_tunnel env cfg x s)) \<and>
          children_ok (snd (stop_dnstt_tunnel env cfg x s))"
      by (simp add: st)
  qed
  with True show ?thesis by (simp add: stop_def)
qed

lemma stalled_start:
  "initialize_tunnels sim_env scenario_config (new_manager sim_client (sim_start\<lparr>refused := [1080]\<rparr>))
     = stalled_state"
  by (simp add: manager_defs xui_defs sim_defs py_defs stalled_state_def)

section \<open>What one iteration of the monitor changes\<close>

lemma stop_ssh_lookup:
  assumes "stop_ssh_tunnel env cfg t s m = (ok, m')"
  shows "map_of (ssh_tunnels m') k =
           (if k = (t, s)
            then map_option (\<lambda>r. r\<lparr>state := STOPPED, process := None, pid := None,
                                   xui_outbound_id := None\<rparr>) (map_of (ssh_tunnels m) k)
            else map_of (ssh_tunnels m) k)"
  using stop_ssh_tunnel_effect [OF assms] by (simp add: map_of_map_entry_at)

lemma start_ssh_lookup:
  assumes "start_ssh_tunnel env cfg t s port socks5 m = (ok, m')"
  shows "k \<noteq> (t, s) \<Longrightarrow> map_of (ssh_tunnels m') k = map_of (ssh_tunnels m) k"
    and "\<not> ok \<Longrightarrow> ssh_tunnels m' = ssh_tunnels m"
    and "ok \<Longrightarrow> map_of (ssh_tunnels m) (t, s) = Some r \<Longrightarrow>
           \<exists>p lc oid. map_of (ssh_tunnels m') (t, s) =
             Some (r\<lparr>process := Some p, pid := Some p, state := RUNNING, last_check := lc,
                     xui_outbound_id := oid\<rparr>)"
  using start_ssh_tunnel_effect [OF assms]
  by (cases ok; auto simp: map_of_map_entry_at)+

lemma monitor_ssh_frame:
  assumes "monitor_ssh env cfg k m = (e, m')"
  shows "dnstt_tunnels m' = dnstt_tunnels m \<and>
         (k' \<noteq> k \<longrightarrow> map_of (ssh_tunnels m') k' = map_of (ssh_tunnels m) k')"
  using assms
proof (cases rule: monitor_ssh_cases)
  case skip
  then show ?thesis by simp
next
  case (raised r w x)
  then show ?thesis by simp
next
  case (healthy r w)
  then show ?thesis by (simp add: touch_ssh_def map_of_map_entry_at)
next
  case (restarted r d w m2 w3 m3)
  from stop_ssh_tunnel_effect [OF restarted(6)] stop_ssh_lookup [OF restarted(6), of k']
    start_ssh_tunnel_effect [OF restarted(7)] start_ssh_lookup(1) [OF restarted(7), of k']
  show ?thesis
    by (auto simp: restarted(9) touch_ssh_def map_of_map_entry_at)
next
  case (not_restarted r d w m2 w3 m3)
  from stop_ssh_tunnel_effect [OF not_restarted(6)] stop_ssh_lookup [OF not_restarted(6), of k']
    start_ssh_tunnel_effect [OF not_restarted(7)] start_ssh_lookup(1) [OF not_restarted(7), of k']
  show ?thesis
    by (auto simp: not_restarted(9) touch_ssh_def map_of_map_entry_at)
next
  case (sleep_raised r w x)
  from stop_ssh_tunnel_effect [OF sleep_raised(5)] stop_ssh_lookup [OF sleep_raised(5), of k']
  show ?thesis by (auto simp: map_of_map_entry_at)
next
  case (exhausted r w m2)
  from stop_ssh_tunnel_effect [OF exhausted(5)] stop_ssh_lookup [OF exhausted(5), of k']
  show ?thesis by (auto simp: exhausted(7) touch_ssh_def map_of_map_entry_at)
qed

lemma monitor_ssh_count:
  assumes s: "monitor_ssh env cfg k m = (e, m')" and r: "map_of (ssh_tunnels m) k = Some r"
  shows "\<exists>r'. map_of (ssh_tunnels m') k = Some r' \<and> count_step r r'"
  using s
proof (cases rule: monitor_ssh_cases)
  case skip
  with r show ?thesis by (simp add: count_step_def)
next
  case (raised r0 w x)
  with r show ?thesis by (simp add: count_step_def)
next
  case (healthy r0 w)
  with r show ?thesis by (simp add: count_step_def touch_ssh_def map_of_map_entry_at)
next
  case (restarted r0 d w m2 w3 m3)
  from restarted(1) r have [simp]: "r0 = r" by simp
  have k: "(fst k, snd k) = k" by simp
  from stop_ssh_lookup [OF restarted(6), of k] r
  obtain r2 where r2: "map_of (ssh_tunnels m2) k = Some r2"
    by (simp add: map_of_map_entry_at)
  from start_ssh_lookup(3) [OF restarted(7), of r2] r2
  obtain p lc oid where "map_of (ssh_tunnels m3) k =
      Some (r2\<lparr>process := Some p, pid := Some p, state := RUNNING, last_check := lc,
               xui_outbound_id := oid\<rparr>)"
    by auto
  then show ?thesis
    by (simp add: restarted(9) touch_ssh_def map_of_map_entry_at count_step_def)
next
  case (not_restarted r0 d w m2 w3 m3)
  from not_restarted(1) r have [simp]: "r0 = r" by simp
  from stop_ssh_lookup [OF not_restarted(6), of k] r
  have "map_of (ssh_tunnels m2) k =
      Some (r\<lparr>state := STOPPED, restart_count := restart_count r + 1, process := None,
              pid := None, xui_outbound_id := None\<rparr>)"
    by (simp add: map_of_map_entry_at)
  moreover from start_ssh_lookup(2) [OF not_restarted(7)]
  have "ssh_tunnels m3 = ssh_tunnels m2" by simp
  ultimately show ?thesis
    by (simp add: not_restarted(9) touch_ssh_def map_of_map_entry_at count_step_def)
next
  case (sleep_raised r0 w x)
  from sleep_raised(1) r have [simp]: "r0 = r" by simp
  from stop_ssh_lookup [OF sleep_raised(5), of k] r
  show ?thesis by (simp add: map_of_map_entry_at count_step_def)
next
  case (exhausted r0 w m2)
  from exhausted(1) r have [simp]: "r0 = r" by simp
  from stop_ssh_lookup [OF exhausted(5), of k] r
  show ?thesis
    by (simp add: exhausted(7) touch_ssh_def map_of_map_entry_at count_step_def)
qed

lemma restart_child_count:
  "map_option restart_count (map_of (ssh_tunnels (restart_child env cfg t port sid s)) k) =
   map_option restart_count (map_of (ssh_tunnels s) k)"
proof (cases "k = (t, sid)")
  case False
  then show ?thesis using restart_child_frame [of env cfg t port sid s k] by simp
next
  case True
  show ?thesis
  proof (cases "map_of (ssh_tunnels s) (t, sid)")
    case None
    then show ?thesis by (simp add: True restart_child_absent)
  next
    case (Some r)
    then obtain ok m1 where
      st: "start_ssh_tunnel env cfg t sid port
             (socks_start_port cfg + t * socks_ports_per_tunnel cfg + sid)
             (update_ssh (t, sid) (\<lambda>x. x\<lparr>state := STOPPED\<rparr>) s) = (ok, m1)"
      and eq: "restart_child env cfg t port sid s = m1\<lparr>world := sleep env (world m1) (1 / 2)\<rparr>"
      by (rule restart_child_present)
    have u: "map_of (ssh_tunnels (update_ssh (t, sid) (\<lambda>x. x\<lparr>state := STOPPED\<rparr>) s)) (t, sid) =
               Some (r\<lparr>state := STOPPED\<rparr>)"
      using Some by (simp add: map_of_map_entry_at)
    show ?thesis
    proof (cases ok)
      case True
      from start_ssh_lookup(3) [OF st True u] Some show ?thesis
        by (auto simp: eq \<open>k = (t, sid)\<close>)
    next
      case False
      from start_ssh_lookup(2) [OF st False] u Some show ?thesis
        by (simp add: eq \<open>k = (t, sid)\<close>)
    qed
  qed
qed

lemma restart_children_lookup:
  fixes m :: "'w TunnelManager"
  shows "dnstt_tunnels (restart_children env cfg t port m) = dnstt_tunnels m \<and>
   map_option restart_count (map_of (ssh_tunnels (restart_children env cfg t port m)) k) =
     map_option restart_count (map_of (ssh_tunnels m) k) \<and>
   (fst k \<noteq> t \<longrightarrow>
      map_of (ssh_tunnels (restart_children env cfg t port m)) k = map_of (ssh_tunnels m) k)"
  unfolding restart_children_def
proof (rule fold_invariant)
  show "dnstt_tunnels m = dnstt_tunnels m \<and>
        map_option restart_count (map_of (ssh_tunnels m) k) =
          map_option restart_count (map_of (ssh_tunnels m) k) \<and>
        (fst k \<noteq> t \<longrightarrow> map_of (ssh_tunnels m) k = map_of (ssh_tunnels m) k)"
    by simp
next
  fix sid and s :: "'w TunnelManager"
  assume "dnstt_tunnels s = dnstt_tunnels m \<and>
        map_option restart_count (map_of (ssh_tunnels s) k) =
          map_option restart_count (map_of (ssh_tunnels m) k) \<and>
        (fst k \<noteq> t \<longrightarrow> map_of (ssh_tunnels s) k = map_of (ssh_tunnels m) k)"
  then show "dnstt_tunnels (restart_child env cfg t port sid s) = dnstt_tunnels m \<and>
        map_option restart_count (map_of (ssh_tunnels (restart_child env cfg t port sid s)) k) =
          map_option restart_count (map_of (ssh_tunnels m) k) \<and>
        (fst k \<noteq> t \<longrightarrow>
           map_of (ssh_tunnels (restart_child env cfg t port sid s)) k = map_of (ssh_tunnels m) k)"
    using restart_child_frame [of env cfg t port sid s k] restart_child_count [of env cfg t port sid s k]
    by auto
qed

lemma stop_dnstt_lookup:
  assumes "plan_ok cfg m" "stop_dnstt_tunnel env cfg t m = (ok, m')"
  shows "map_option restart_count (map_of (ssh_tunnels m') k) =
           map_option restart_count (map_of (ssh_tunnels m) k)"
    and "fst k \<noteq> t \<Longrightarrow> map_of (ssh_tunnels m') k = map_of (ssh_tunnels m) k"
    and "map_of (dnstt_tunnels m') t' =
           (if t' = t
            then map_option (\<lambda>r. r\<lparr>state := STOPPED, process := None, pid := None\<rparr>)
                   (map_of (dnstt_tunnels m) t')
            else map_of (dnstt_tunnels m) t')"
proof -
  show "map_option restart_count (map_of (ssh_tunnels m') k) =
           map_option restart_count (map_of (ssh_tunnels m) k)"
  proof (cases "fst k = t \<and> map_of (dnstt_tunnels m) t \<noteq> None")
    case True
    with stop_dnstt_children [OF assms, of k] show ?thesis
      by (cases "map_of (ssh_tunnels m) k") auto
  next
    case False
    show ?thesis
    proof (cases "fst k = t")
      case True
      with False have "map_of (dnstt_tunnels m) t = None" by simp
      with assms(2) have "m' = m" by (simp add: stop_dnstt_tunnel_def)
      then show ?thesis by simp
    next
      case False
      with stop_dnstt_others [OF assms, of k] show ?thesis by simp
    qed
  qed
  show "fst k \<noteq> t \<Longrightarrow> map_of (ssh_tunnels m') k = map_of (ssh_tunnels m) k"
    using stop_dnstt_others [OF assms, of k] by simp
  show "map_of (dnstt_tunnels m') t' =
           (if t' = t
            then map_option (\<lambda>r. r\<lparr>state := STOPPED, process := None, pid := None\<rparr>)
                   (map_of (dnstt_tunnels m) t')
            else map_of (dnstt_tunnels m) t')"
    using stop_dnstt_parent [OF assms] by (simp add: map_of_map_entry_at)
qed

lemma start_dnstt_lookup:
  assumes "start_dnstt_tunnel env cfg t port m = (ok, m')"
  shows "ssh_tunnels m' = ssh_tunnels m"
    and "t' \<noteq> t \<Longrightarrow> map_of (dnstt_tunnels m') t' = map_of (dnstt_tunnels m) t'"
    and "\<not> ok \<Longrightarrow> dnstt_tunnels m' = dnstt_tunnels m"
    and "ok \<Longrightarrow> map_of (dnstt_tunnels m) t = Some d \<Longrightarrow>
           \<exists>p lc. map_of (dnstt_tunnels m') t =
             Some (d\<lparr>process := Some p, pid := Some p, state := RUNNING, last_check := lc\<rparr>)"
  using start_dnstt_tunnel_effect [OF assms]
  by (cases ok; auto simp: map_of_map_entry_at)+

section \<open>The registry after a clean start\<close>


lemma registered_append [simp]: "registered (xs @ ys) = registered xs @ registered ys"
  by (simp add: registered_def)

lemma removals_append [simp]: "removals (xs @ ys) = removals xs @ removals ys"
  by (simp add: removals_def)

lemma registered_simps [simp]:
  "registered [] = []"
  "registered [Slept d] = []"
  "registered [Request rq None] = []"
  by (simp_all add: registered_def outbound_of_def)

lemma removals_simps [simp]:
  "removals [] = []"
  "removals [Slept d] = []"
  "removals [Request rq r] = (if http_verb rq = DELETE then [Request rq r] else [])"
  by (simp_all add: removals_def)







lemma journal_simps [simp]:
  "journal (m\<lparr>world := wl\<rparr>) = snd wl"
  "journal (update_dnstt t f m) = journal m"
  "journal (update_ssh k g m) = journal m"
  "journal (m\<lparr>xui_client := c\<rparr>) = journal m"
  by (simp_all add: journal_def update_dnstt_def update_ssh_def)







section \<open>Children that are alive\<close>

lemma fades_refl [simp]: "fades alive w w"
  by (simp add: fades_def)

lemma fades_trans: "fades alive w w1 \<Longrightarrow> fades alive w1 w2 \<Longrightarrow> fades alive w w2"
  by (simp add: fades_def)

lemma lawful_fades:
  assumes "lawful env alive"
  shows "fades alive w (snd (poll env w q))"
    and "fades alive w (terminate env w q)"
    and "fades alive w (killpg env w q)"
    and "fades alive w (snd (pid_exists env w q))"
    and "fades alive w (snd (connect_ex env w host port))"
    and "fades alive w (snd (requests_get env w test_url proxy))"
    and "fades alive w (snd (session_request env w rq))"
    and "fades alive w (sleep env w d)"
  using assms by (simp_all add: lawful_def)

lemma lawful_kills:
  assumes "lawful env alive"
  shows "\<not> alive (terminate env w q) q"
    and "\<not> alive (killpg env w q) q"
    and "fst (poll env w q) \<Longrightarrow> \<not> alive (snd (poll env w q)) q"
    and "fst (pid_exists env w q) \<noteq> Inr True \<Longrightarrow> \<not> alive (snd (pid_exists env w q)) q"
    and "\<not> alive w 0"
  using assms by (simp_all add: lawful_def)

lemma lawful_popen:
  assumes "lawful env alive" "alive (snd (popen env w cmd)) p"
  shows "alive w p \<or> fst (popen env w cmd) = Some p"
  using assms by (simp add: lawful_def)

lemma login_fades:
  assumes "lawful env alive"
  shows "fades alive w (snd (snd (login env c w)))"
  using lawful_fades(7) [OF assms, where w = w and rq = "login_request c"]
  by (auto simp: login_def split: prod.splits option.splits)

lemma ensure_authenticated_fades:
  assumes "lawful env alive"
  shows "fades alive w (snd (snd (ensure_authenticated env c w)))"
  using login_fades [OF assms] by (simp add: ensure_authenticated_def)

lemma try_endpoints_fades:
  assumes "lawful env alive"
  shows "fades alive w (snd (snd (try_endpoints env verdict request endpoints c w)))"
proof (induction endpoints arbitrary: c w)
  case Nil
  then show ?case by simp
next
  case (Cons endpoint endpoints)
  obtain r w1 where s: "session_request env w (request c endpoint) = (r, w1)"
    by (cases "session_request env w (request c endpoint)")
  with lawful_fades(7) [OF assms, where w = w and rq = "request c endpoint"] have f1: "fades alive w w1" by simp
  show ?case
  proof (cases r)
    case None
    with s f1 show ?thesis by simp
  next
    case (Some response)
    show ?thesis
    proof (cases "verdict response")
      case (Return x)
      with s f1 Some show ?thesis by simp
    next
      case Raise
      with s f1 Some show ?thesis by simp
    next
      case Next
      with s Some Cons.IH [where c = c and w = w1] f1 show ?thesis by (auto intro: fades_trans)
    next
      case Reauth
      obtain b c2 w2 where e: "ensure_authenticated env (c\<lparr>authenticated := False\<rparr>) w1 = (b, c2, w2)"
        by (cases "ensure_authenticated env (c\<lparr>authenticated := False\<rparr>) w1")
      with ensure_authenticated_fades [OF assms, where w = w1 and c = "c\<lparr>authenticated := False\<rparr>"]
      have f2: "fades alive w1 w2" by simp
      from f1 f2 have "fades alive w w2" by (rule fades_trans)
      with s Some Reauth e Cons.IH [where c = c2 and w = w2] show ?thesis
        by (cases b) (auto intro: fades_trans)
    qed
  qed
qed

lemma retry_loop_fades:
  assumes "lawful env alive" and run: "\<And>c w. fades alive w (snd (snd (run c w)))"
  shows "fades alive w (snd (snd (retry_loop env run retry_count attempts c w)))"
proof (induction attempts arbitrary: c w)
  case Nil
  then show ?case by simp
next
  case (Cons attempt attempts)
  obtain outcome c1 w1 where r: "run c w = (outcome, c1, w1)" by (cases "run c w")
  with run [where c = c and w = w] have f1: "fades alive w w1" by simp
  let ?w2 = "if attempt < retry_count - 1 then sleep env w1 1 else w1"
  have "fades alive w1 ?w2" using lawful_fades(8) [OF assms(1)] by simp
  with f1 have f2: "fades alive w ?w2" by (rule fades_trans)
  from f2 Cons.IH [where c = c1 and w = ?w2] have "fades alive w
      (snd (snd (retry_loop env run retry_count attempts c1 ?w2)))"
    by (rule fades_trans)
  with r f1 show ?case by (cases outcome) simp_all
qed

lemma with_retries_fades:
  assumes "lawful env alive" and run: "\<And>c w. fades alive w (snd (snd (run c w)))"
  shows "fades alive w (snd (snd (with_retries env run retry_count c w)))"
proof -
  obtain b c1 w1 where e: "ensure_authenticated env c w = (b, c1, w1)"
    by (cases "ensure_authenticated env c w")
  with ensure_authenticated_fades [OF assms(1), where w = w and c = c] have f1: "fades alive w w1" by simp
  from f1 retry_loop_fades [OF assms, where w = w1 and retry_count = retry_count
      and attempts = "py_range retry_count" and c = c1]
  have "fades alive w (snd (snd (retry_loop env run retry_count (py_range retry_count) c1 w1)))"
    by (rule fades_trans)
  with e f1 show ?thesis by (cases b) (simp_all add: with_retries_def)
qed

lemma registry_fades:
  assumes "lawful env alive"
  shows "fades alive w (snd (snd (add_socks5_outbound env c w host port remark n)))"
    and "fades alive w (snd (snd (remove_outbound env c w oid n)))"
    and "fades alive w (snd (snd (reload_xray env c w n)))"
proof -
  note t = try_endpoints_fades [OF assms]
  show "fades alive w (snd (snd (add_socks5_outbound env c w host port remark n)))"
    unfolding add_socks5_outbound_def by (rule with_retries_fades [OF assms]) (rule t)
  have "fades alive w (snd (snd (with_retries env
          (try_endpoints env remove_verdict remove_request (remove_endpoints oid)) n c w)))"
    by (rule with_retries_fades [OF assms]) (rule t)
  then show "fades alive w (snd (snd (remove_outbound env c w oid n)))"
    by (auto simp: remove_outbound_def split: prod.splits option.splits)
  have "fades alive w (snd (snd (with_retries env
          (try_endpoints env reload_verdict reload_request reload_endpoints) n c w)))"
    by (rule with_retries_fades [OF assms]) (rule t)
  then show "fades alive w (snd (snd (reload_xray env c w n)))"
    by (auto simp: reload_xray_def split: prod.splits option.splits)
qed

lemma is_port_listening_fades:
  assumes "lawful env alive"
  shows "fades alive w (snd (is_port_listening env w host port))"
  using lawful_fades(5) [OF assms, where w = w and host = host and port = port]
  by (auto simp: is_port_listening_def split: prod.splits sum.splits)

lemma poll_port_fades:
  assumes "lawful env alive"
  shows "fades alive w (snd (poll_port env n port w))"
proof (induction n arbitrary: w)
  case 0
  then show ?case by simp
next
  case (Suc n)
  obtain r w1 where i: "is_port_listening env (sleep env w 1) ''127.0.0.1'' port = (r, w1)"
    by (cases "is_port_listening env (sleep env w 1) ''127.0.0.1'' port")
  from lawful_fades(8) [OF assms, where w = w and d = 1]
    is_port_listening_fades [OF assms, where w = "sleep env w 1" and host = "''127.0.0.1''" and port = port] i
  have f1: "fades alive w w1" by (auto intro: fades_trans)
  from f1 Suc.IH [where w = w1] have "fades alive w (snd (poll_port env n port w1))"
    by (rule fades_trans)
  with i f1 show ?case by (auto split: sum.splits bool.splits)
qed

lemma await_port_fades:
  assumes "lawful env alive"
  shows "fades alive w (snd (await_port env port w))"
proof -
  obtain r w1 where i: "is_port_listening env w ''127.0.0.1'' port = (r, w1)"
    by (cases "is_port_listening env w ''127.0.0.1'' port")
  with is_port_listening_fades [OF assms, where w = w and host = "''127.0.0.1''" and port = port] have f1: "fades alive w w1"
    by simp
  from f1 poll_port_fades [OF assms, where w = w1 and n = 5 and port = port]
  have "fades alive w (snd (poll_port env 5 port w1))" by (rule fades_trans)
  with i f1 show ?thesis by (auto simp: await_port_def split: sum.splits bool.splits)
qed

lemma await_port_returns: "fst (await_port env port w) \<noteq> Inl x"
proof -
  have p: "fst (poll_port env n port w') \<noteq> Inl x" for n w'
    by (induction n arbitrary: w')
      (auto simp: is_port_listening_def split: prod.splits sum.splits bool.splits)
  show ?thesis
    using p by (auto simp: await_port_def is_port_listening_def split: prod.splits sum.splits bool.splits)
qed

lemma is_alive_fades:
  assumes "lawful env alive"
  shows "fades alive w (snd (is_alive env w p))"
proof (cases p)
  case None
  then show ?thesis by (simp add: is_alive_def)
next
  case (Some n)
  with lawful_fades(4) [OF assms, where w = w and q = n] show ?thesis
    by (auto simp: is_alive_def split: prod.splits sum.splits)
qed

lemma probes_fade:
  assumes "lawful env alive"
  shows "fades alive w (snd (check_dnstt_port env w host port))"
    and "fades alive w (snd (check_tunnel_health env w host port test_url))"
proof -
  show "fades alive w (snd (check_dnstt_port env w host port))"
    unfolding check_dnstt_port_def by (rule is_port_listening_fades [OF assms])
  obtain r w1 where i: "is_port_listening env w host port = (r, w1)"
    by (cases "is_port_listening env w host port")
  with is_port_listening_fades [OF assms, where w = w and host = host and port = port] have f1: "fades alive w w1" by simp
  have "fades alive w1 (snd (test_socks5_connectivity env w1 host port test_url))"
    using lawful_fades(6) [OF assms, where w = w1 and test_url = test_url and proxy = "proxy_url host port"]
    by (auto simp: test_socks5_connectivity_def split: prod.splits sum.splits exn.splits)
  with f1 have "fades alive w (snd (test_socks5_connectivity env w1 host port test_url))"
    by (rule fades_trans)
  with i f1 show "fades alive w (snd (check_tunnel_health env w host port test_url))"
    by (auto simp: check_tunnel_health_def split: prod.splits sum.splits bool.splits)
qed
lemma fadesD: "fades alive w w' \<Longrightarrow> alive w' p \<Longrightarrow> alive w p"
  by (simp add: fades_def)

lemma kill_child_kills:
  assumes "lawful env alive"
  shows "fades alive w (kill_child env w proc p)"
    and "proc = Some q \<Longrightarrow> p = Some q \<Longrightarrow> \<not> alive (kill_child env w proc p) q"
proof -
  have both: "fades alive w (kill_child env w proc p) \<and>
      (proc = Some q \<longrightarrow> p = Some q \<longrightarrow> \<not> alive (kill_child env w proc p) q)"
  proof (cases "\<exists>h n. proc = Some h \<and> p = Some n \<and> n \<noteq> 0")
    case False
    then have k: "kill_child env w proc p = w"
      by (auto simp: kill_child_def split: option.splits)
    from False have "proc = Some q \<Longrightarrow> p = Some q \<Longrightarrow> q = 0" by auto
    with k lawful_kills(5) [OF assms, of w] show ?thesis by auto
  next
    case True
    then obtain h n where hn: "proc = Some h" "p = Some n" "n \<noteq> 0" by blast
    obtain x w1 where e: "pid_exists env w n = (x, w1)" by (cases "pid_exists env w n")
    from lawful_fades(4) [OF assms, where w = w and q = n] e have f1: "fades alive w w1" by simp
    show ?thesis
    proof (cases "x = Inr True")
      case True
      with hn e have k: "kill_child env w proc p = killpg env w1 n"
        by (simp add: kill_child_def)
      from f1 lawful_fades(3) [OF assms, where w = w1 and q = n]
      have "fades alive w (killpg env w1 n)" by (rule fades_trans)
      with k lawful_kills(2) [OF assms, of w1 n] hn show ?thesis by auto
    next
      case False
      with hn e have k: "kill_child env w proc p = w1"
        by (cases x) (auto simp: kill_child_def split: bool.splits)
      from False e lawful_kills(4) [OF assms, of w n] have "\<not> alive w1 n" by simp
      with k f1 hn show ?thesis by auto
    qed
  qed
  from both show "fades alive w (kill_child env w proc p)" by simp
  from both show "proc = Some q \<Longrightarrow> p = Some q \<Longrightarrow> \<not> alive (kill_child env w proc p) q" by simp
qed

lemma stop_ssh_world:
  assumes l: "lawful env alive" and s: "stop_ssh_tunnel env cfg t sid m = (ok, m')"
  shows "fades alive (world m) (world m')"
    and "map_of (ssh_tunnels m) (t, sid) = Some r \<Longrightarrow> holds r p \<Longrightarrow> \<not> alive (world m') p"
proof -
  have both: "fades alive (world m) (world m') \<and>
      (\<forall>r p. map_of (ssh_tunnels m) (t, sid) = Some r \<longrightarrow> holds r p \<longrightarrow> \<not> alive (world m') p)"
  proof (cases "map_of (ssh_tunnels m) (t, sid)")
    case None
    with s show ?thesis by (simp add: stop_ssh_tunnel_def)
  next
    case (Some x)
    let ?w2 = "if truthy (xui_outbound_id x)
               then snd (snd (reload_xray env
                      (fst (snd (remove_outbound env (xui_client m) (world m)
                                   (the (xui_outbound_id x)) 3)))
                      (snd (snd (remove_outbound env (xui_client m) (world m)
                                   (the (xui_outbound_id x)) 3))) 3))
               else world m"
    have w: "world m' = kill_child env ?w2 (process x) (pid x)"
      using s Some by (auto simp: stop_ssh_tunnel_def update_ssh_def split: prod.splits)
    have f2: "fades alive (world m) ?w2"
      using registry_fades(2) [OF l, where w = "world m" and c = "xui_client m"
          and oid = "the (xui_outbound_id x)" and n = 3]
        registry_fades(3) [OF l, where n = 3
          and c = "fst (snd (remove_outbound env (xui_client m) (world m) (the (xui_outbound_id x)) 3))"
          and w = "snd (snd (remove_outbound env (xui_client m) (world m) (the (xui_outbound_id x)) 3))"]
      by (auto intro: fades_trans)
    from f2 kill_child_kills(1) [OF l, of ?w2 "process x" "pid x"]
    have "fades alive (world m) (world m')" unfolding w by (rule fades_trans)
    moreover have "holds x p \<Longrightarrow> \<not> alive (world m') p" for p
      unfolding w using kill_child_kills(2) [OF l, of "process x" p "pid x" ?w2]
      by (simp add: holds_def)
    ultimately show ?thesis using Some by auto
  qed
  from both show "fades alive (world m) (world m')" by simp
  from both show "map_of (ssh_tunnels m) (t, sid) = Some r \<Longrightarrow> holds r p \<Longrightarrow> \<not> alive (world m') p"
    by blast
qed
lemma start_ssh_world:
  assumes l: "lawful env alive" and s: "start_ssh_tunnel env cfg t sid port socks5 m = (ok, m')"
  shows "if ok then
           \<exists>p. (\<forall>q. alive (world m') q \<longrightarrow> alive (world m) q \<or> q = p) \<and>
               (\<forall>r. map_of (ssh_tunnels m) (t, sid) = Some r \<longrightarrow>
                  (\<exists>r'. map_of (ssh_tunnels m') (t, sid) = Some r' \<and> holds r' p))
         else fades alive (world m) (world m')"
proof -
  let ?cmd = "ssh_cmd cfg port socks5"
  obtain x w1 where po: "popen env (world m) ?cmd = (x, w1)" by (cases "popen env (world m) ?cmd")
  have a1: "alive w1 q \<Longrightarrow> alive (world m) q \<or> x = Some q" for q
    using lawful_popen [OF l, of "world m" ?cmd q] po by simp
  show ?thesis
  proof (cases x)
    case None
    with s po have "\<not> ok" "world m' = w1" by (auto simp: start_ssh_tunnel_def)
    with a1 None show ?thesis by (simp add: fades_def)
  next
    case (Some p)
    obtain ex w2 where pl: "poll env (sleep env w1 2) p = (ex, w2)"
      by (cases "poll env (sleep env w1 2) p")
    from lawful_fades(8) [OF l, where w = w1 and d = 2]
      lawful_fades(1) [OF l, where w = "sleep env w1 2" and q = p] pl
    have f12: "fades alive w1 w2" by (auto intro: fades_trans)
    have a2: "alive w2 q \<Longrightarrow> alive (world m) q \<or> q = p" for q
      using a1 [of q] f12 Some by (auto dest: fadesD)
    show ?thesis
    proof (cases ex)
      case True
      with s po Some pl have o: "\<not> ok" "world m' = w2" by (auto simp: start_ssh_tunnel_def)
      from True pl lawful_kills(3) [OF l, of "sleep env w1 2" p] have "\<not> alive w2 p" by simp
      with a2 o show ?thesis by (auto simp: fades_def)
    next
      case False
      obtain y w3 where aw: "await_port env socks5 w2 = (y, w3)"
        by (cases "await_port env socks5 w2")
      from await_port_fades [OF l, where w = w2 and port = socks5] aw
      have f23: "fades alive w2 w3" by simp
      have a3: "alive w3 q \<Longrightarrow> alive (world m) q \<or> q = p" for q
        using a2 [of q] f23 by (auto dest: fadesD)
      show ?thesis
      proof (cases y)
        case (Inl e)
        with aw await_port_returns [of env socks5 w2 e] show ?thesis by simp
      next
        case (Inr b)
        show ?thesis
        proof (cases b)
          case no: False
          with s po Some pl False aw Inr have o: "\<not> ok" "world m' = terminate env w3 p"
            by (auto simp: start_ssh_tunnel_def)
          from lawful_fades(2) [OF l, of w3 p] lawful_kills(1) [OF l, of w3 p] a3 o
          show ?thesis by (auto simp: fades_def)
        next
          case yes: True
          obtain oid c4 w4 where ad:
            "add_socks5_outbound env (xui_client m) w3 ''127.0.0.1'' socks5 (ssh_remark t sid) 3 =
               (oid, c4, w4)"
            by (cases "add_socks5_outbound env (xui_client m) w3 ''127.0.0.1'' socks5
                         (ssh_remark t sid) 3")
          from registry_fades(1) [OF l, where w = w3 and c = "xui_client m"
              and host = "''127.0.0.1''" and port = socks5 and remark = "ssh_remark t sid" and n = 3] ad
          have f34: "fades alive w3 w4" by simp
          obtain rr c5 w5 where re: "reload_xray env c4 w4 3 = (rr, c5, w5)"
            by (cases "reload_xray env c4 w4 3")
          from registry_fades(3) [OF l, where w = w4 and c = c4 and n = 3] re
          have f45: "fades alive w4 w5" by simp
          let ?w = "if truthy oid then w5 else w4"
          have f3: "fades alive w3 ?w" using f34 f45 by (auto intro: fades_trans)
          from s po Some pl False aw Inr yes ad re have o: "ok" "world m' = ?w"
            by (cases "truthy oid"; auto simp: start_ssh_tunnel_def)+
          from s po Some pl False aw Inr yes ad re
          have r: "map_of (ssh_tunnels m) (t, sid) = Some r \<Longrightarrow>
                     \<exists>r'. map_of (ssh_tunnels m') (t, sid) = Some r' \<and> holds r' p" for r
            by (cases "truthy oid") (auto simp: start_ssh_tunnel_def map_of_map_entry_at holds_def)
          have "alive (world m') q \<Longrightarrow> alive (world m) q \<or> q = p" for q
            using a3 [of q] f3 o by (auto dest: fadesD)
          with r have "\<exists>p. (\<forall>q. alive (world m') q \<longrightarrow> alive (world m) q \<or> q = p) \<and>
               (\<forall>r. map_of (ssh_tunnels m) (t, sid) = Some r \<longrightarrow>
                  (\<exists>r'. map_of (ssh_tunnels m') (t, sid) = Some r' \<and> holds r' p))"
            by (intro exI [of _ p]) blast
          with o show ?thesis by simp
        qed
      qed
    qed
  qed
qed

lemma start_dnstt_world:
  assumes l: "lawful env alive" and s: "start_dnstt_tunnel env cfg t port m = (ok, m')"
  shows "if ok then
           \<exists>p. (\<forall>q. alive (world m') q \<longrightarrow> alive (world m) q \<or> q = p) \<and>
               (\<forall>d. map_of (dnstt_tunnels m) t = Some d \<longrightarrow>
                  (\<exists>d'. map_of (dnstt_tunnels m') t = Some d' \<and> holds d' p))
         else fades alive (world m) (world m')"
proof -
  let ?cmd = "dnstt_cmd cfg port"
  obtain x w1 where po: "popen env (world m) ?cmd = (x, w1)" by (cases "popen env (world m) ?cmd")
  have a1: "alive w1 q \<Longrightarrow> alive (world m) q \<or> x = Some q" for q
    using lawful_popen [OF l, of "world m" ?cmd q] po by simp
  show ?thesis
  proof (cases x)
    case None
    with s po have "\<not> ok" "world m' = w1" by (auto simp: start_dnstt_tunnel_def)
    with a1 None show ?thesis by (simp add: fades_def)
  next
    case (Some p)
    obtain ex w2 where pl: "poll env (sleep env w1 2) p = (ex, w2)"
      by (cases "poll env (sleep env w1 2) p")
    from lawful_fades(8) [OF l, where w = w1 and d = 2]
      lawful_fades(1) [OF l, where w = "sleep env w1 2" and q = p] pl
    have f12: "fades alive w1 w2" by (auto intro: fades_trans)
    have a2: "alive w2 q \<Longrightarrow> alive (world m) q \<or> q = p" for q
      using a1 [of q] f12 Some by (auto dest: fadesD)
    show ?thesis
    proof (cases ex)
      case True
      with s po Some pl have o: "\<not> ok" "world m' = w2" by (auto simp: start_dnstt_tunnel_def)
      from True pl lawful_kills(3) [OF l, of "sleep env w1 2" p] have "\<not> alive w2 p" by simp
      with a2 o show ?thesis by (auto simp: fades_def)
    next
      case False
      obtain y w3 where aw: "await_port env port w2 = (y, w3)"
        by (cases "await_port env port w2")
      from await_port_fades [OF l, where w = w2 and port = port] aw
      have f23: "fades alive w2 w3" by simp
      have a3: "alive w3 q \<Longrightarrow> alive (world m) q \<or> q = p" for q
        using a2 [of q] f23 by (auto dest: fadesD)
      show ?thesis
      proof (cases y)
        case (Inl e)
        with aw await_port_returns [of env port w2 e] show ?thesis by simp
      next
        case (Inr b)
        show ?thesis
        proof (cases b)
          case no: False
          with s po Some pl False aw Inr have o: "\<not> ok" "world m' = terminate env w3 p"
            by (auto simp: start_dnstt_tunnel_def)
          from lawful_fades(2) [OF l, of w3 p] lawful_kills(1) [OF l, of w3 p] a3 o
          show ?thesis by (auto simp: fades_def)
        next
          case yes: True
          from s po Some pl False aw Inr yes have o: "ok" "world m' = w3"
            by (auto simp: start_dnstt_tunnel_def)
          from s po Some pl False aw Inr yes
          have r: "map_of (dnstt_tunnels m) t = Some d \<Longrightarrow>
                     \<exists>d'. map_of (dnstt_tunnels m') t = Some d' \<and> holds d' p" for d
            by (auto simp: start_dnstt_tunnel_def map_of_map_entry_at holds_def)
          from a3 o r have "\<exists>p. (\<forall>q. alive (world m') q \<longrightarrow> alive (world m) q \<or> q = p) \<and>
               (\<forall>d. map_of (dnstt_tunnels m) t = Some d \<longrightarrow>
                  (\<exists>d'. map_of (dnstt_tunnels m') t = Some d' \<and> holds d' p))"
            by (intro exI [of _ p]) blast
          with o show ?thesis by simp
        qed
      qed
    qed
  qed
qed
section \<open>No child is left without a record\<close>

lemma held_fields [simp]:
  "held (m\<lparr>world := w\<rparr>) p = held m p"
  "held (m\<lparr>xui_client := c\<rparr>) p = held m p"
  "held (m\<lparr>running := b\<rparr>) p = held m p"
  "held (m\<lparr>shutdown_event := b\<rparr>) p = held m p"
  by (simp_all add: held_def)

lemma held_cong:
  fixes m m' :: "'w TunnelManager"
  assumes "\<And>t. map_option (\<lambda>d. (process d, pid d)) (map_of (dnstt_tunnels m') t) =
                map_option (\<lambda>d. (process d, pid d)) (map_of (dnstt_tunnels m) t)"
    and "\<And>k. map_option (\<lambda>r. (process r, pid r)) (map_of (ssh_tunnels m') k) =
              map_option (\<lambda>r. (process r, pid r)) (map_of (ssh_tunnels m) k)"
  shows "held m' p = held m p"
proof -
  have e1: "(map_option (\<lambda>r. (process r, pid r)) x = Some (Some p, Some p)) =
            (\<exists>r. x = Some r \<and> holds r p)"
    for x :: "DNSTTTunnel option"
    by (cases x) (auto simp: holds_def)
  have e2: "(map_option (\<lambda>r. (process r, pid r)) x = Some (Some p, Some p)) =
            (\<exists>r. x = Some r \<and> holds r p)"
    for x :: "SSHTunnel option"
    by (cases x) (auto simp: holds_def)
  have h: "held a p =
          ((\<exists>t. map_option (\<lambda>d. (process d, pid d)) (map_of (dnstt_tunnels a) t) =
                Some (Some p, Some p)) \<or>
           (\<exists>k. map_option (\<lambda>r. (process r, pid r)) (map_of (ssh_tunnels a) k) =
                Some (Some p, Some p)))"
    for a :: "'w TunnelManager"
    unfolding e1 e2 held_def ..
  show ?thesis by (subst h, subst h, simp only: assms)
qed

lemma heldE:
  assumes "held m p"
  obtains (dnstt) t d where "map_of (dnstt_tunnels m) t = Some d" "holds d p"
  | (ssh) k r where "map_of (ssh_tunnels m) k = Some r" "holds r p"
proof -
  from assms have "(\<exists>t d. map_of (dnstt_tunnels m) t = Some d \<and> holds d p) \<or>
      (\<exists>k r. map_of (ssh_tunnels m) k = Some r \<and> holds r p)"
    by (simp add: held_def)
  then show thesis
  proof
    assume "\<exists>t d. map_of (dnstt_tunnels m) t = Some d \<and> holds d p"
    then obtain t d where "map_of (dnstt_tunnels m) t = Some d" "holds d p"
      by (elim exE conjE)
    then show thesis by (rule dnstt)
  next
    assume "\<exists>k r. map_of (ssh_tunnels m) k = Some r \<and> holds r p"
    then obtain k r where "map_of (ssh_tunnels m) k = Some r" "holds r p"
      by (elim exE conjE)
    then show thesis by (rule ssh)
  qed
qed

lemma held_update_ssh:
  "(\<And>r. process (f r) = process r \<and> pid (f r) = pid r) \<Longrightarrow> held (update_ssh k f m) p = held m p"
  by (rule held_cong) (auto simp: map_of_map_entry_at option.map_comp comp_def)

lemma held_update_dnstt:
  "(\<And>r. process (f r) = process r \<and> pid (f r) = pid r) \<Longrightarrow> held (update_dnstt t f m) p = held m p"
  by (rule held_cong) (auto simp: map_of_map_entry_at option.map_comp comp_def)

lemma no_strays_world:
  "no_strays alive m \<Longrightarrow> fades alive (world m) w \<Longrightarrow> no_strays alive (m\<lparr>world := w\<rparr>)"
  by (auto simp: no_strays_def dest: fadesD)

lemma no_strays_update:
  assumes "\<And>r. process (f r) = process r \<and> pid (f r) = pid r"
  shows "no_strays alive (update_ssh k f m) = no_strays alive m"
    and "\<And>g. (\<And>r. process (g r) = process r \<and> pid (g r) = pid r) \<Longrightarrow>
           no_strays alive (update_dnstt t g m) = no_strays alive m"
  using assms by (simp_all add: no_strays_def held_update_ssh held_update_dnstt)

lemma no_strays_touch [simp]:
  "no_strays alive (touch_ssh env k m) = no_strays alive m"
  "no_strays alive (touch_dnstt env t m) = no_strays alive m"
  by (simp_all add: touch_ssh_def touch_dnstt_def no_strays_def held_update_ssh held_update_dnstt)

lemma heldI:
  "map_of (dnstt_tunnels m) t = Some d \<Longrightarrow> holds d p \<Longrightarrow> held m p"
  "map_of (ssh_tunnels m) k = Some r \<Longrightarrow> holds r p \<Longrightarrow> held m p"
  unfolding held_def by blast+

lemma no_strays_stop_ssh:
  assumes l: "lawful env alive" and n: "no_strays alive m"
    and s: "stop_ssh_tunnel env cfg t sid m = (ok, m')"
  shows "no_strays alive m'"
  unfolding no_strays_def
proof (intro allI impI)
  fix p
  assume a: "alive (world m') p"
  with stop_ssh_world(1) [OF l s] have "alive (world m) p" by (rule fadesD)
  with n have "held m p" by (simp add: no_strays_def)
  then show "held m' p"
  proof (cases rule: heldE)
    case (dnstt t' d)
    with stop_ssh_tunnel_effect [OF s] show ?thesis by (intro heldI(1) [of m' t' d]) simp_all
  next
    case (ssh k r)
    with stop_ssh_world(2) [OF l s, of r p] a have "k \<noteq> (t, sid)" by blast
    with stop_ssh_lookup [OF s, of k] ssh show ?thesis by (intro heldI(2) [of m' k r]) simp_all
  qed
qed

lemma no_strays_start_ssh:
  assumes l: "lawful env alive" and n: "no_strays alive m"
    and s: "start_ssh_tunnel env cfg t sid port socks5 m = (ok, m')"
    and idle: "\<exists>r. map_of (ssh_tunnels m) (t, sid) = Some r \<and> process r = None"
  shows "no_strays alive m'"
proof (cases ok)
  case False
  with start_ssh_world [OF l s] have f: "fades alive (world m) (world m')" by simp
  from False start_ssh_tunnel_effect [OF s] have "held m' p = held m p" for p
    by (simp add: held_def)
  with n f show ?thesis by (auto simp: no_strays_def dest: fadesD)
next
  case True
  with start_ssh_world [OF l s] idle obtain p r' where
    w: "\<And>q. alive (world m') q \<Longrightarrow> alive (world m) q \<or> q = p"
    and r': "map_of (ssh_tunnels m') (t, sid) = Some r'" "holds r' p"
    by auto
  show ?thesis
    unfolding no_strays_def
  proof (intro allI impI)
    fix q
    assume "alive (world m') q"
    with w have "alive (world m) q \<or> q = p" by simp
    then show "held m' q"
    proof
      assume "q = p"
      with r' show ?thesis by (auto intro: heldI)
    next
      assume "alive (world m) q"
      with n have "held m q" by (simp add: no_strays_def)
      then show ?thesis
      proof (cases rule: heldE)
        case (dnstt t' d)
        with start_ssh_tunnel_effect [OF s] show ?thesis
          by (intro heldI(1) [of m' t' d]) simp_all
      next
        case (ssh k r)
        with idle have "k \<noteq> (t, sid)" by (auto simp: holds_def)
        with start_ssh_lookup(1) [OF s, of k] ssh show ?thesis
          by (intro heldI(2) [of m' k r]) simp_all
      qed
    qed
  qed
qed

lemma no_strays_start_dnstt:
  assumes l: "lawful env alive" and n: "no_strays alive m"
    and s: "start_dnstt_tunnel env cfg t port m = (ok, m')"
    and idle: "\<exists>d. map_of (dnstt_tunnels m) t = Some d \<and> process d = None"
  shows "no_strays alive m'"
proof (cases ok)
  case False
  with start_dnstt_world [OF l s] have f: "fades alive (world m) (world m')" by simp
  from False start_dnstt_tunnel_effect [OF s] have "held m' p = held m p" for p
    by (simp add: held_def)
  with n f show ?thesis by (auto simp: no_strays_def dest: fadesD)
next
  case True
  with start_dnstt_world [OF l s] idle obtain p d' where
    w: "\<And>q. alive (world m') q \<Longrightarrow> alive (world m) q \<or> q = p"
    and d': "map_of (dnstt_tunnels m') t = Some d'" "holds d' p"
    by auto
  show ?thesis
    unfolding no_strays_def
  proof (intro allI impI)
    fix q
    assume "alive (world m') q"
    with w have "alive (world m) q \<or> q = p" by simp
    then show "held m' q"
    proof
      assume "q = p"
      with d' show ?thesis by (auto intro: heldI)
    next
      assume "alive (world m) q"
      with n have "held m q" by (simp add: no_strays_def)
      then show ?thesis
      proof (cases rule: heldE)
        case (dnstt t' d)
        with idle have "t' \<noteq> t" by (auto simp: holds_def)
        with start_dnstt_lookup(2) [OF s, of t'] dnstt show ?thesis
          by (intro heldI(1) [of m' t' d]) simp_all
      next
        case (ssh k r)
        with start_dnstt_lookup(1) [OF s] show ?thesis
          by (intro heldI(2) [of m' k r]) simp_all
      qed
    qed
  qed
qed

lemma fold_stop_ssh_world:
  assumes l: "lawful env alive"
  shows "fades alive (world m)
           (world (fold (\<lambda>ssh s. snd (stop_ssh_tunnel env cfg t (ssh_id ssh) s)) xs m)) \<and>
         (\<forall>x \<in> set xs. \<forall>r p. map_of (ssh_tunnels m) (t, ssh_id x) = Some r \<longrightarrow> holds r p \<longrightarrow>
            \<not> alive (world (fold (\<lambda>ssh s. snd (stop_ssh_tunnel env cfg t (ssh_id ssh) s)) xs m)) p)"
proof (induction xs arbitrary: m)
  case Nil
  then show ?case by simp
next
  case (Cons x xs)
  let ?F = "\<lambda>ssh s. snd (stop_ssh_tunnel env cfg t (ssh_id ssh) s)"
  obtain ok m1 where s: "stop_ssh_tunnel env cfg t (ssh_id x) m = (ok, m1)"
    by (cases "stop_ssh_tunnel env cfg t (ssh_id x) m")
  note w1 = stop_ssh_world [OF l s]
  note ih = Cons.IH [where m = m1]
  from w1(1) ih have f: "fades alive (world m) (world (fold ?F xs m1))"
    by (blast intro: fades_trans)
  have "\<not> alive (world (fold ?F xs m1)) p"
    if y: "y \<in> set (x # xs)" and r: "map_of (ssh_tunnels m) (t, ssh_id y) = Some r" and h: "holds r p"
    for y r p
  proof (cases "ssh_id y = ssh_id x")
    case True
    with w1(2) [of r p] r h have "\<not> alive (world m1) p" by simp
    with ih show ?thesis by (blast dest: fadesD)
  next
    case False
    with y have "y \<in> set xs" by auto
    moreover from False stop_ssh_lookup [OF s, of "(t, ssh_id y)"] r
    have "map_of (ssh_tunnels m1) (t, ssh_id y) = Some r" by simp
    ultimately show ?thesis using ih h by blast
  qed
  with f show ?case by (simp add: s)
qed

lemma stop_dnstt_world:
  assumes l: "lawful env alive" and p: "plan_ok cfg m"
    and s: "stop_dnstt_tunnel env cfg t m = (ok, m')"
  shows "fades alive (world m) (world m')"
    and "map_of (dnstt_tunnels m) t = Some d \<Longrightarrow> holds d q \<Longrightarrow> \<not> alive (world m') q"
    and "map_of (dnstt_tunnels m) t \<noteq> None \<Longrightarrow> fst k = t \<Longrightarrow>
         map_of (ssh_tunnels m) k = Some r \<Longrightarrow> holds r q \<Longrightarrow> \<not> alive (world m') q"
proof -
  have all: "fades alive (world m) (world m') \<and>
      (\<forall>d q. map_of (dnstt_tunnels m) t = Some d \<longrightarrow> holds d q \<longrightarrow> \<not> alive (world m') q) \<and>
      (map_of (dnstt_tunnels m) t \<noteq> None \<longrightarrow>
         (\<forall>r q. fst k = t \<longrightarrow> map_of (ssh_tunnels m) k = Some r \<longrightarrow> holds r q \<longrightarrow>
            \<not> alive (world m') q))"
  proof (cases "map_of (dnstt_tunnels m) t")
    case None
    with s show ?thesis by (simp add: stop_dnstt_tunnel_def)
  next
    case (Some tunnel)
    let ?F = "\<lambda>ssh s. snd (stop_ssh_tunnel env cfg t (ssh_id ssh) s)"
    let ?m1 = "update_dnstt t (\<lambda>x. x\<lparr>state := STOPPING\<rparr>) m"
    let ?m2 = "fold ?F (ssh_tunnels_to_stop t ?m1) ?m1"
    from s Some have w: "world m' = kill_child env (world ?m2) (process tunnel) (pid tunnel)"
      by (auto simp: stop_dnstt_tunnel_def Let_def)
    note fw = fold_stop_ssh_world [OF l, where m = ?m1 and t = t and cfg = cfg
        and xs = "ssh_tunnels_to_stop t ?m1"]
    from fw have f12: "fades alive (world m) (world ?m2)" by simp
    note kc = kill_child_kills [OF l, where w = "world ?m2" and proc = "process tunnel"
        and p = "pid tunnel"]
    from f12 kc(1) have f: "fades alive (world m) (world m')"
      unfolding w by (rule fades_trans)
    have d: "holds tunnel q \<Longrightarrow> \<not> alive (world m') q" for q
      unfolding w using kc(2) [of q] by (simp add: holds_def)
    have c: "\<not> alive (world m') q"
      if k: "fst k = t" and r: "map_of (ssh_tunnels m) k = Some r" and h: "holds r q" for r q
    proof -
      from keyed_lookup [OF p r] k have kk: "k = (t, ssh_id r)" by (cases k) simp
      from r have "(k, r) \<in> set (ssh_tunnels m)" by (rule map_of_SomeD)
      with k have "r \<in> set (ssh_tunnels_to_stop t ?m1)"
        by (force simp: ssh_tunnels_to_stop_def)
      with fw r h kk have "\<not> alive (world ?m2) q" by auto
      with kc(1) show ?thesis unfolding w by (blast dest: fadesD)
    qed
    from f d c Some show ?thesis by auto
  qed
  from all show "fades alive (world m) (world m')" by simp
  from all show "map_of (dnstt_tunnels m) t = Some d \<Longrightarrow> holds d q \<Longrightarrow> \<not> alive (world m') q"
    by blast
  from all show "map_of (dnstt_tunnels m) t \<noteq> None \<Longrightarrow> fst k = t \<Longrightarrow>
         map_of (ssh_tunnels m) k = Some r \<Longrightarrow> holds r q \<Longrightarrow> \<not> alive (world m') q"
    by blast
qed

lemma no_strays_stop_dnstt:
  assumes l: "lawful env alive" and p: "plan_ok cfg m" and n: "no_strays alive m"
    and s: "stop_dnstt_tunnel env cfg t m = (ok, m')"
  shows "no_strays alive m'"
proof (cases "map_of (dnstt_tunnels m) t")
  case None
  with s n show ?thesis by (simp add: stop_dnstt_tunnel_def)
next
  case (Some tunnel)
  show ?thesis
    unfolding no_strays_def
  proof (intro allI impI)
    fix q
    assume a: "alive (world m') q"
    with stop_dnstt_world(1) [OF l p s] have "alive (world m) q" by (rule fadesD)
    with n have "held m q" by (simp add: no_strays_def)
    then show "held m' q"
    proof (cases rule: heldE)
      case (dnstt t' d)
      with stop_dnstt_world(2) [OF l p s, of d q] a have "t' \<noteq> t" by blast
      with stop_dnstt_lookup(3) [OF p s, of t'] dnstt show ?thesis
        by (intro heldI(1) [of m' t' d]) simp_all
    next
      case (ssh k r)
      with stop_dnstt_world(3) [OF l p s, of k r q] a Some have "fst k \<noteq> t" by auto
      with stop_dnstt_lookup(2) [OF p s, of k] ssh show ?thesis
        by (intro heldI(2) [of m' k r]) simp_all
    qed
  qed
qed

lemma no_strays_restart_child:
  assumes l: "lawful env alive" and n: "no_strays alive s"
    and idle: "\<And>r. map_of (ssh_tunnels s) (t, sid) = Some r \<Longrightarrow> process r = None"
  shows "no_strays alive (restart_child env cfg t port sid s)"
proof (cases "map_of (ssh_tunnels s) (t, sid)")
  case None
  with n lawful_fades(8) [OF l, of "world s" "1 / 2"] show ?thesis
    by (simp add: restart_child_absent no_strays_world)
next
  case (Some r)
  let ?s1 = "update_ssh (t, sid) (\<lambda>x. x\<lparr>state := STOPPED\<rparr>) s"
  from Some obtain ok m1 where
    st: "start_ssh_tunnel env cfg t sid port
           (socks_start_port cfg + t * socks_ports_per_tunnel cfg + sid) ?s1 = (ok, m1)"
    and eq: "restart_child env cfg t port sid s = m1\<lparr>world := sleep env (world m1) (1 / 2)\<rparr>"
    by (rule restart_child_present)
  from n have n1: "no_strays alive ?s1" by (simp add: no_strays_update(1))
  from Some idle have "\<exists>x. map_of (ssh_tunnels ?s1) (t, sid) = Some x \<and> process x = None"
    by (simp add: map_of_map_entry_at)
  from no_strays_start_ssh [OF l n1 st this] have "no_strays alive m1" .
  with lawful_fades(8) [OF l, of "world m1" "1 / 2"] show ?thesis
    unfolding eq by (rule no_strays_world [rotated])
qed

lemma no_strays_restart_fold:
  assumes l: "lawful env alive"
  shows "no_strays alive m \<Longrightarrow> distinct sids \<Longrightarrow>
         (\<And>sid r. sid \<in> set sids \<Longrightarrow> map_of (ssh_tunnels m) (t, sid) = Some r \<Longrightarrow> process r = None) \<Longrightarrow>
         no_strays alive (fold (restart_child env cfg t port) sids m)"
proof (induction sids arbitrary: m)
  case Nil
  then show ?case by simp
next
  case (Cons sid sids)
  let ?m1 = "restart_child env cfg t port sid m"
  have n1: "no_strays alive ?m1"
    by (rule no_strays_restart_child [OF l Cons.prems(1)]) (rule Cons.prems(3), simp_all)
  have "process r = None" if "x \<in> set sids" "map_of (ssh_tunnels ?m1) (t, x) = Some r" for x r
  proof -
    from that(1) Cons.prems(2) have "(t, x) \<noteq> (t, sid)" by auto
    with restart_child_frame [of env cfg t port sid m "(t, x)"] that(2)
    have "map_of (ssh_tunnels m) (t, x) = Some r" by simp
    with that(1) Cons.prems(3) [of x r] show ?thesis by simp
  qed
  with Cons.IH [OF n1] Cons.prems(2) show ?case by simp
qed

lemma no_strays_restart_children:
  assumes "lawful env alive" "no_strays alive m"
    "\<And>sid r. map_of (ssh_tunnels m) (t, sid) = Some r \<Longrightarrow> process r = None"
  shows "no_strays alive (restart_children env cfg t port m)"
  unfolding restart_children_def
  by (rule no_strays_restart_fold [OF assms(1,2) distinct_py_range]) (rule assms(3))

lemma start_child_frame:
  "dnstt_tunnels (start_child env cfg t port sid s) = dnstt_tunnels s \<and>
   (k \<noteq> (t, sid) \<longrightarrow>
      map_of (ssh_tunnels (start_child env cfg t port sid s)) k = map_of (ssh_tunnels s) k)"
proof (cases "map_of (ssh_tunnels s) (t, sid)")
  case None
  then show ?thesis by (simp add: start_child_def)
next
  case (Some r)
  obtain ok s' where st: "start_ssh_tunnel env cfg t sid port (socks5_port r) s = (ok, s')"
    by (cases "start_ssh_tunnel env cfg t sid port (socks5_port r) s")
  from start_ssh_tunnel_effect [OF st] start_ssh_lookup(1) [OF st, of k] Some st
  show ?thesis by (simp add: start_child_def)
qed

lemma no_strays_start_child:
  assumes l: "lawful env alive" and n: "no_strays alive s"
    and idle: "\<And>r. map_of (ssh_tunnels s) (t, sid) = Some r \<Longrightarrow> process r = None"
  shows "no_strays alive (start_child env cfg t port sid s)"
proof (cases "map_of (ssh_tunnels s) (t, sid)")
  case None
  with n show ?thesis by (simp add: start_child_def)
next
  case (Some r)
  obtain ok s' where st: "start_ssh_tunnel env cfg t sid port (socks5_port r) s = (ok, s')"
    by (cases "start_ssh_tunnel env cfg t sid port (socks5_port r) s")
  from Some idle have "\<exists>x. map_of (ssh_tunnels s) (t, sid) = Some x \<and> process x = None" by simp
  from no_strays_start_ssh [OF l n st this] have "no_strays alive s'" .
  with lawful_fades(8) [OF l, of "world s'" "1 / 2"] Some st show ?thesis
    by (simp add: start_child_def no_strays_world)
qed

lemma no_strays_start_fold:
  assumes l: "lawful env alive"
  shows "no_strays alive m \<Longrightarrow> distinct sids \<Longrightarrow>
         (\<And>sid r. sid \<in> set sids \<Longrightarrow> map_of (ssh_tunnels m) (t, sid) = Some r \<Longrightarrow> process r = None) \<Longrightarrow>
         no_strays alive (fold (start_child env cfg t port) sids m)"
proof (induction sids arbitrary: m)
  case Nil
  then show ?case by simp
next
  case (Cons sid sids)
  let ?m1 = "start_child env cfg t port sid m"
  have n1: "no_strays alive ?m1"
    by (rule no_strays_start_child [OF l Cons.prems(1)]) (rule Cons.prems(3), simp_all)
  have "process r = None" if "x \<in> set sids" "map_of (ssh_tunnels ?m1) (t, x) = Some r" for x r
  proof -
    from that(1) Cons.prems(2) have "(t, x) \<noteq> (t, sid)" by auto
    with start_child_frame [of env cfg t port sid m "(t, x)"] that(2)
    have "map_of (ssh_tunnels m) (t, x) = Some r" by simp
    with that(1) Cons.prems(3) [of x r] show ?thesis by simp
  qed
  with Cons.IH [OF n1] Cons.prems(2) show ?case by simp
qed

lemma start_children_frame:
  "dnstt_tunnels (start_children env cfg t port m) = dnstt_tunnels m \<and>
   (fst k \<noteq> t \<longrightarrow> map_of (ssh_tunnels (start_children env cfg t port m)) k = map_of (ssh_tunnels m) k)"
  unfolding start_children_def
proof (rule fold_invariant)
  show "dnstt_tunnels m = dnstt_tunnels m \<and>
        (fst k \<noteq> t \<longrightarrow> map_of (ssh_tunnels m) k = map_of (ssh_tunnels m) k)"
    by simp
next
  fix sid and s :: "'a TunnelManager"
  assume "dnstt_tunnels s = dnstt_tunnels m \<and>
          (fst k \<noteq> t \<longrightarrow> map_of (ssh_tunnels s) k = map_of (ssh_tunnels m) k)"
  with start_child_frame [of env cfg t port sid s k]
  show "dnstt_tunnels (start_child env cfg t port sid s) = dnstt_tunnels m \<and>
        (fst k \<noteq> t \<longrightarrow>
           map_of (ssh_tunnels (start_child env cfg t port sid s)) k = map_of (ssh_tunnels m) k)"
    by auto
qed

lemma start_parent_frame:
  "(t' \<noteq> t \<longrightarrow> map_of (dnstt_tunnels (start_parent env cfg t s)) t' = map_of (dnstt_tunnels s) t') \<and>
   (fst k \<noteq> t \<longrightarrow> map_of (ssh_tunnels (start_parent env cfg t s)) k = map_of (ssh_tunnels s) k)"
proof (cases "map_of (dnstt_tunnels s) t")
  case None
  then show ?thesis by (simp add: start_parent_def)
next
  case (Some d)
  obtain ok s' where st: "start_dnstt_tunnel env cfg t (local_port d) s = (ok, s')"
    by (cases "start_dnstt_tunnel env cfg t (local_port d) s")
  note a = start_dnstt_lookup(1) [OF st] start_dnstt_lookup(2) [OF st, of t']
  note b = start_children_frame [of env cfg t "local_port d" "s'\<lparr>world := sleep env (world s') 1\<rparr>" k]
  from a b Some st show ?thesis by (cases ok) (auto simp: start_parent_def)
qed

lemma no_strays_start_parent:
  assumes l: "lawful env alive" and n: "no_strays alive s"
    and idle: "\<And>d. map_of (dnstt_tunnels s) t = Some d \<Longrightarrow> process d = None"
    and idles: "\<And>sid r. sid \<in> set (py_range (ssh_per_dnstt cfg)) \<Longrightarrow>
                  map_of (ssh_tunnels s) (t, sid) = Some r \<Longrightarrow> process r = None"
  shows "no_strays alive (start_parent env cfg t s)"
proof (cases "map_of (dnstt_tunnels s) t")
  case None
  with n show ?thesis by (simp add: start_parent_def)
next
  case (Some d)
  obtain ok s' where st: "start_dnstt_tunnel env cfg t (local_port d) s = (ok, s')"
    by (cases "start_dnstt_tunnel env cfg t (local_port d) s")
  from Some idle have "\<exists>x. map_of (dnstt_tunnels s) t = Some x \<and> process x = None" by simp
  from no_strays_start_dnstt [OF l n st this] have n1: "no_strays alive s'" .
  show ?thesis
  proof (cases ok)
    case False
    with Some st n1 show ?thesis by (simp add: start_parent_def)
  next
    case True
    let ?s2 = "s'\<lparr>world := sleep env (world s') 1\<rparr>"
    from n1 lawful_fades(8) [OF l, of "world s'" 1] have n2: "no_strays alive ?s2"
      by (rule no_strays_world)
    have "no_strays alive (fold (start_child env cfg t (local_port d)) (py_range (ssh_per_dnstt cfg)) ?s2)"
    proof (rule no_strays_start_fold [OF l n2 distinct_py_range])
      fix sid r
      assume "sid \<in> set (py_range (ssh_per_dnstt cfg))" "map_of (ssh_tunnels ?s2) (t, sid) = Some r"
      with start_dnstt_lookup(1) [OF st] idles [of sid r] show "process r = None" by simp
    qed
    with True Some st show ?thesis by (simp add: start_parent_def start_children_def)
  qed
qed

lemma no_strays_start_all:
  assumes l: "lawful env alive"
  shows "no_strays alive m \<Longrightarrow> distinct tids \<Longrightarrow>
         (\<And>t d. t \<in> set tids \<Longrightarrow> map_of (dnstt_tunnels m) t = Some d \<Longrightarrow> process d = None) \<Longrightarrow>
         (\<And>t sid r. t \<in> set tids \<Longrightarrow> sid \<in> set (py_range (ssh_per_dnstt cfg)) \<Longrightarrow>
            map_of (ssh_tunnels m) (t, sid) = Some r \<Longrightarrow> process r = None) \<Longrightarrow>
         no_strays alive (fold (start_parent env cfg) tids m)"
proof (induction tids arbitrary: m)
  case Nil
  then show ?case by simp
next
  case (Cons t tids)
  let ?m1 = "start_parent env cfg t m"
  have n1: "no_strays alive ?m1"
  proof (rule no_strays_start_parent [OF l Cons.prems(1)])
    show "\<And>d. map_of (dnstt_tunnels m) t = Some d \<Longrightarrow> process d = None"
      using Cons.prems(3) [of t] by simp
    show "\<And>sid r. sid \<in> set (py_range (ssh_per_dnstt cfg)) \<Longrightarrow>
            map_of (ssh_tunnels m) (t, sid) = Some r \<Longrightarrow> process r = None"
      using Cons.prems(4) [of t] by simp
  qed
  have a: "process d = None" if "x \<in> set tids" "map_of (dnstt_tunnels ?m1) x = Some d" for x d
  proof -
    from that(1) Cons.prems(2) have "x \<noteq> t" by auto
    with start_parent_frame [of x t env cfg m] that(2)
    have "map_of (dnstt_tunnels m) x = Some d" by simp
    with that(1) Cons.prems(3) [of x d] show ?thesis by simp
  qed
  have b: "process r = None"
    if "x \<in> set tids" "sid \<in> set (py_range (ssh_per_dnstt cfg))"
      "map_of (ssh_tunnels ?m1) (x, sid) = Some r" for x sid r
  proof -
    from that(1) Cons.prems(2) have "fst (x, sid) \<noteq> t" by auto
    with start_parent_frame [of _ t env cfg m "(x, sid)"] that(3)
    have "map_of (ssh_tunnels m) (x, sid) = Some r" by simp
    with that(1,2) Cons.prems(4) [of x sid r] show ?thesis by simp
  qed
  from Cons.IH [OF n1 _ a b] Cons.prems(2) show ?case by simp
qed

lemma no_strays_initialize:
  assumes l: "lawful env alive" and q: "\<And>p. \<not> alive (world m) p"
  shows "no_strays alive (initialize_tunnels env cfg m)"
  unfolding initialize_tunnels_def start_all_def
proof (rule no_strays_start_all [OF l _ distinct_py_range])
  let ?m0 = "create_ssh_records cfg (create_dnstt_records cfg m)"
  have w: "world ?m0 = world m"
    by (simp add: create_dnstt_records_eq create_ssh_records_eq)
  with q show "no_strays alive ?m0" by (simp add: no_strays_def)
  show "process d = None"
    if "t \<in> set (py_range (dnstt_count cfg))" "map_of (dnstt_tunnels ?m0) t = Some d" for t d
    using that
    by (auto simp: create_dnstt_records_eq create_ssh_records_eq fold_update_lookup new_dnstt_def)
  show "process r = None"
    if "t \<in> set (py_range (dnstt_count cfg))" "sid \<in> set (py_range (ssh_per_dnstt cfg))"
      "map_of (ssh_tunnels ?m0) (t, sid) = Some r" for t sid r
  proof -
    from that(1,2) have "map_of (ssh_tunnels ?m0) (t, sid) = Some (new_ssh cfg t sid)"
      by (simp add: create_dnstt_records_eq create_ssh_records_eq
          fold_update_lookup [where f = "\<lambda>k. new_ssh cfg (fst k) (snd k)"])
    with that(3) show ?thesis by (auto simp: new_ssh_def)
  qed
qed

lemma probe_worlds:
  assumes l: "lawful env alive"
  shows "fades alive w (snd (check_dnstt_port env (snd (is_alive env w p)) host port))"
    and "fades alive w (snd (check_tunnel_health env (snd (is_alive env w p)) host port test_url))"
  using is_alive_fades [OF l, of w p] probes_fade [OF l, of "snd (is_alive env w p)" host port]
  by (blast intro: fades_trans)+

lemma no_strays_monitor_ssh:
  assumes l: "lawful env alive" and n: "no_strays alive m"
    and s: "monitor_ssh env cfg k m = (e, m')"
  shows "no_strays alive m'"
  using s
proof (cases rule: monitor_ssh_cases)
  case skip
  with n show ?thesis by simp
next
  case (raised r w x)
  from probe_worlds(2) [OF l, of "world m" "pid r" "''127.0.0.1''" "socks5_port r" default_test_url]
    raised(6)
  have "fades alive (world m) w" by simp
  with n raised(5) show ?thesis by (simp add: no_strays_world)
next
  case (healthy r w)
  from probe_worlds(2) [OF l, of "world m" "pid r" "''127.0.0.1''" "socks5_port r" default_test_url]
    healthy(7)
  have "fades alive (world m) w" by simp
  with n healthy(5) show ?thesis by (simp add: no_strays_world)
next
  case (restarted r d w m2 w3 m3)
  let ?m1 = "update_ssh k (\<lambda>t. t\<lparr>state := FAILED, restart_count := restart_count r + 1\<rparr>)
               (m\<lparr>world := w\<rparr>)"
  from probe_worlds(2) [OF l, of "world m" "pid r" "''127.0.0.1''" "socks5_port r" default_test_url]
    restarted(10)
  have "fades alive (world m) w" by simp
  with n have "no_strays alive ?m1" by (simp add: no_strays_update(1) no_strays_world)
  from no_strays_stop_ssh [OF l this restarted(6)] have n2: "no_strays alive m2" .
  from lawful_fades(8) [OF l, of "world m2"] restarted(11) have "fades alive (world m2) w3"
    by auto
  with n2 have n2': "no_strays alive (m2\<lparr>world := w3\<rparr>)" by (rule no_strays_world)
  from stop_ssh_lookup [OF restarted(6), of k] restarted(1)
  have "\<exists>x. map_of (ssh_tunnels (m2\<lparr>world := w3\<rparr>)) (fst k, snd k) = Some x \<and> process x = None"
    by (simp add: map_of_map_entry_at)
  from no_strays_start_ssh [OF l n2' restarted(7) this] have "no_strays alive m3" .
  then show ?thesis by (simp add: restarted(9) no_strays_update(1))
next
  case (not_restarted r d w m2 w3 m3)
  let ?m1 = "update_ssh k (\<lambda>t. t\<lparr>state := FAILED, restart_count := restart_count r + 1\<rparr>)
               (m\<lparr>world := w\<rparr>)"
  from probe_worlds(2) [OF l, of "world m" "pid r" "''127.0.0.1''" "socks5_port r" default_test_url]
    not_restarted(10)
  have "fades alive (world m) w" by simp
  with n have "no_strays alive ?m1" by (simp add: no_strays_update(1) no_strays_world)
  from no_strays_stop_ssh [OF l this not_restarted(6)] have n2: "no_strays alive m2" .
  from lawful_fades(8) [OF l, of "world m2"] not_restarted(11) have "fades alive (world m2) w3"
    by auto
  with n2 have n2': "no_strays alive (m2\<lparr>world := w3\<rparr>)" by (rule no_strays_world)
  from stop_ssh_lookup [OF not_restarted(6), of k] not_restarted(1)
  have "\<exists>x. map_of (ssh_tunnels (m2\<lparr>world := w3\<rparr>)) (fst k, snd k) = Some x \<and> process x = None"
    by (simp add: map_of_map_entry_at)
  from no_strays_start_ssh [OF l n2' not_restarted(7) this] have "no_strays alive m3" .
  then show ?thesis by (simp add: not_restarted(9))
next
  case (sleep_raised r w x)
  let ?m1 = "update_ssh k (\<lambda>t. t\<lparr>state := FAILED, restart_count := restart_count r + 1\<rparr>)
               (m\<lparr>world := w\<rparr>)"
  from probe_worlds(2) [OF l, of "world m" "pid r" "''127.0.0.1''" "socks5_port r" default_test_url]
    sleep_raised(8)
  have "fades alive (world m) w" by simp
  with n have "no_strays alive ?m1" by (simp add: no_strays_update(1) no_strays_world)
  from no_strays_stop_ssh [OF l this sleep_raised(5)] show ?thesis .
next
  case (exhausted r w m2)
  let ?m1 = "update_ssh k (\<lambda>t. t\<lparr>state := FAILED, restart_count := restart_count r + 1\<rparr>)
               (m\<lparr>world := w\<rparr>)"
  from probe_worlds(2) [OF l, of "world m" "pid r" "''127.0.0.1''" "socks5_port r" default_test_url]
    exhausted(8)
  have "fades alive (world m) w" by simp
  with n have "no_strays alive ?m1" by (simp add: no_strays_update(1) no_strays_world)
  from no_strays_stop_ssh [OF l this exhausted(5)] have "no_strays alive m2" .
  then show ?thesis by (simp add: exhausted(7))
qed

lemma no_strays_monitor_dnstt:
  assumes l: "lawful env alive" and p: "plan_ok cfg m" and n: "no_strays alive m"
    and s: "monitor_dnstt env cfg t m = (e, m')"
  shows "no_strays alive m'"
  using s
proof (cases rule: monitor_dnstt_cases)
  case skip
  with n show ?thesis by simp
next
  case (raised d w x)
  from probe_worlds(1) [OF l, of "world m" "pid d" "''127.0.0.1''" "local_port d"] raised(5)
  have "fades alive (world m) w" by simp
  with n raised(4) show ?thesis by (simp add: no_strays_world)
next
  case (healthy d w)
  from probe_worlds(1) [OF l, of "world m" "pid d" "''127.0.0.1''" "local_port d"] healthy(6)
  have "fades alive (world m) w" by simp
  with n healthy(4) show ?thesis by (simp add: no_strays_world)
next
  case (restarted d w m2 w3 m3)
  let ?m1 = "update_dnstt t (\<lambda>r. r\<lparr>state := FAILED, restart_count := restart_count d + 1\<rparr>)
               (m\<lparr>world := w\<rparr>)"
  from probe_worlds(1) [OF l, of "world m" "pid d" "''127.0.0.1''" "local_port d"] restarted(8)
  have "fades alive (world m) w" by simp
  with n have n1: "no_strays alive ?m1" by (simp add: no_strays_update(2) no_strays_world)
  have p1: "plan_ok cfg ?m1" using p by (simp add: plan_ok_update_dnstt)
  have d1: "map_of (dnstt_tunnels ?m1) t \<noteq> None" using restarted(1) by (simp add: map_of_map_entry_at)
  from no_strays_stop_dnstt [OF l p1 n1 restarted(4)] have n2: "no_strays alive m2" .
  from lawful_fades(8) [OF l, of "world m2"] restarted(9) have "fades alive (world m2) w3"
    by auto
  with n2 have n2': "no_strays alive (m2\<lparr>world := w3\<rparr>)" by (rule no_strays_world)
  from stop_dnstt_lookup(3) [OF p1 restarted(4), of t] d1
  have "\<exists>x. map_of (dnstt_tunnels (m2\<lparr>world := w3\<rparr>)) t = Some x \<and> process x = None"
    by auto
  from no_strays_start_dnstt [OF l n2' restarted(5) this] have n3: "no_strays alive m3" .
  have "no_strays alive (restart_children env cfg t (local_port d) m3)"
  proof (rule no_strays_restart_children [OF l n3])
    fix sid r
    assume "map_of (ssh_tunnels m3) (t, sid) = Some r"
    with start_dnstt_lookup(1) [OF restarted(5)]
    have "map_of (ssh_tunnels m2) (t, sid) = Some r" by simp
    with stop_dnstt_children [OF p1 restarted(4) d1, of "(t, sid)"] show "process r = None"
      by (cases "map_of (ssh_tunnels ?m1) (t, sid)") auto
  qed
  then show ?thesis by (simp add: restarted(7) no_strays_update(2))
next
  case (not_restarted d w m2 w3 m3)
  let ?m1 = "update_dnstt t (\<lambda>r. r\<lparr>state := FAILED, restart_count := restart_count d + 1\<rparr>)
               (m\<lparr>world := w\<rparr>)"
  from probe_worlds(1) [OF l, of "world m" "pid d" "''127.0.0.1''" "local_port d"] not_restarted(8)
  have "fades alive (world m) w" by simp
  with n have n1: "no_strays alive ?m1" by (simp add: no_strays_update(2) no_strays_world)
  have p1: "plan_ok cfg ?m1" using p by (simp add: plan_ok_update_dnstt)
  have d1: "map_of (dnstt_tunnels ?m1) t \<noteq> None"
    using not_restarted(1) by (simp add: map_of_map_entry_at)
  from no_strays_stop_dnstt [OF l p1 n1 not_restarted(4)] have n2: "no_strays alive m2" .
  from lawful_fades(8) [OF l, of "world m2"] not_restarted(9) have "fades alive (world m2) w3"
    by auto
  with n2 have n2': "no_strays alive (m2\<lparr>world := w3\<rparr>)" by (rule no_strays_world)
  from stop_dnstt_lookup(3) [OF p1 not_restarted(4), of t] d1
  have "\<exists>x. map_of (dnstt_tunnels (m2\<lparr>world := w3\<rparr>)) t = Some x \<and> process x = None"
    by auto
  from no_strays_start_dnstt [OF l n2' not_restarted(5) this] have "no_strays alive m3" .
  then show ?thesis by (simp add: not_restarted(7))
next
  case (sleep_raised d w x)
  let ?m1 = "update_dnstt t (\<lambda>r. r\<lparr>state := FAILED, restart_count := restart_count d + 1\<rparr>)
               (m\<lparr>world := w\<rparr>)"
  from probe_worlds(1) [OF l, of "world m" "pid d" "''127.0.0.1''" "local_port d"] sleep_raised(7)
  have "fades alive (world m) w" by simp
  with n have n1: "no_strays alive ?m1" by (simp add: no_strays_update(2) no_strays_world)
  have p1: "plan_ok cfg ?m1" using p by (simp add: plan_ok_update_dnstt)
  from no_strays_stop_dnstt [OF l p1 n1 sleep_raised(4)] show ?thesis .
next
  case (exhausted d w m2)
  let ?m1 = "update_dnstt t (\<lambda>r. r\<lparr>state := FAILED, restart_count := restart_count d + 1\<rparr>)
               (m\<lparr>world := w\<rparr>)"
  from probe_worlds(1) [OF l, of "world m" "pid d" "''127.0.0.1''" "local_port d"] exhausted(7)
  have "fades alive (world m) w" by simp
  with n have n1: "no_strays alive ?m1" by (simp add: no_strays_update(2) no_strays_world)
  have p1: "plan_ok cfg ?m1" using p by (simp add: plan_ok_update_dnstt)
  from no_strays_stop_dnstt [OF l p1 n1 exhausted(4)] have "no_strays alive m2" .
  then show ?thesis by (simp add: exhausted(6))
qed

lemma no_strays_fields [simp]:
  "no_strays alive (m\<lparr>running := b\<rparr>) = no_strays alive m"
  "no_strays alive (m\<lparr>shutdown_event := b\<rparr>) = no_strays alive m"
  by (simp_all add: no_strays_def)

lemma no_strays_monitor_pass:
  assumes l: "lawful env alive" and p: "plan_ok cfg m" and c: "children_ok m"
    and n: "no_strays alive m"
  shows "no_strays alive (monitor_pass env cfg m)"
proof -
  let ?P = "\<lambda>s. plan_ok cfg s \<and> children_ok s \<and> no_strays alive s"
  obtain e1 m1 where l1: "for_each (monitor_dnstt env cfg) (map fst (dnstt_tunnels m)) m = (e1, m1)"
    by (cases "for_each (monitor_dnstt env cfg) (map fst (dnstt_tunnels m)) m")
  have p1: "?P m1"
    by (rule for_each_invariant [where P = ?P, OF _ _ l1])
      (use p c n in \<open>auto dest: invariant_monitor_dnstt no_strays_monitor_dnstt [OF l]\<close>)
  obtain e2 m2 where l2: "for_each (monitor_ssh env cfg) (map fst (ssh_tunnels m1)) m1 = (e2, m2)"
    by (cases "for_each (monitor_ssh env cfg) (map fst (ssh_tunnels m1)) m1")
  have p2: "?P m2"
    by (rule for_each_invariant [where P = ?P, OF _ _ l2])
      (use p1 in \<open>auto dest: invariant_monitor_ssh no_strays_monitor_ssh [OF l]\<close>)
  from p2 lawful_fades(8) [OF l, of "world m2"] have "no_strays alive (m2\<lparr>world := sleep env (world m2) d\<rparr>)" for d
    by (simp add: no_strays_world)
  moreover from p1 lawful_fades(8) [OF l, of "world m1"]
  have "no_strays alive (m1\<lparr>world := sleep env (world m1) d\<rparr>)" for d
    by (simp add: no_strays_world)
  ultimately show ?thesis
    using l1 l2 by (cases e1; cases e2) (simp_all add: monitor_pass_def)
qed

lemma no_strays_stop:
  fixes m :: "'w TunnelManager"
  assumes l: "lawful env alive" and p: "plan_ok cfg m" and n: "no_strays alive m"
  shows "no_strays alive (stop env cfg m)"
proof (cases "running m")
  case False
  with n show ?thesis by (simp add: stop_def)
next
  case True
  have "plan_ok cfg (fold (\<lambda>tid s. snd (stop_dnstt_tunnel env cfg tid s))
             (map fst (dnstt_tunnels m)) (m\<lparr>running := False, shutdown_event := True\<rparr>)) \<and>
        no_strays alive (fold (\<lambda>tid s. snd (stop_dnstt_tunnel env cfg tid s))
             (map fst (dnstt_tunnels m)) (m\<lparr>running := False, shutdown_event := True\<rparr>))"
  proof (rule fold_invariant)
    show "plan_ok cfg (m\<lparr>running := False, shutdown_event := True\<rparr>) \<and>
          no_strays alive (m\<lparr>running := False, shutdown_event := True\<rparr>)"
      using p n by simp
  next
    fix x and s :: "'w TunnelManager"
    assume a: "plan_ok cfg s \<and> no_strays alive s"
    obtain ok s' where st: "stop_dnstt_tunnel env cfg x s = (ok, s')"
      by (cases "stop_dnstt_tunnel env cfg x s")
    from a no_strays_stop_dnstt [OF l _ _ st] plan_ok_stop_dnstt [OF st]
    show "plan_ok cfg (snd (stop_dnstt_tunnel env cfg x s)) \<and>
          no_strays alive (snd (stop_dnstt_tunnel env cfg x s))"
      by (simp add: st)
  qed
  with True show ?thesis by (simp add: stop_def)
qed

lemma no_strays_start:
  assumes "lawful env alive" "no_strays alive m" "\<And>p. \<not> alive (world m) p"
  shows "no_strays alive (start env cfg m)"
  using assms by (simp add: start_def no_strays_initialize)

lemma reachable_invariant:
  assumes l: "lawful env alive"
  shows "reachable env alive cfg m \<Longrightarrow> plan_ok cfg m \<and> children_ok m \<and> no_strays alive m"
proof (induction rule: reachable.induct)
  case (new w c)
  then show ?case
    by (simp add: new_manager_def plan_ok_def children_ok_def ssh_plan_def dnstt_plan_def
        no_strays_def)
next
  case (initialize m)
  then show ?case by (simp add: invariant_initialize no_strays_initialize [OF l])
next
  case (started m)
  then show ?case by (simp add: invariant_start no_strays_start [OF l])
next
  case (stopped m)
  then show ?case by (simp add: invariant_stop no_strays_stop [OF l])
next
  case (start_dnstt m tid d port)
  obtain ok m' where st: "start_dnstt_tunnel env cfg tid port m = (ok, m')"
    by (cases "start_dnstt_tunnel env cfg tid port m")
  from start_dnstt.hyps have "\<exists>x. map_of (dnstt_tunnels m) tid = Some x \<and> process x = None"
    by simp
  with start_dnstt.IH children_ok_start_dnstt [OF _ st] plan_ok_start_dnstt [OF st]
    no_strays_start_dnstt [OF l _ st]
  show ?case by (simp add: st)
next
  case (stop_dnstt m tid)
  obtain ok m' where st: "stop_dnstt_tunnel env cfg tid m = (ok, m')"
    by (cases "stop_dnstt_tunnel env cfg tid m")
  from stop_dnstt.IH children_ok_stop_dnstt [OF _ _ st] plan_ok_stop_dnstt [OF st]
    no_strays_stop_dnstt [OF l _ _ st]
  show ?case by (simp add: st)
next
  case (start_ssh m tid sid r port socks5)
  obtain ok m' where st: "start_ssh_tunnel env cfg tid sid port socks5 m = (ok, m')"
    by (cases "start_ssh_tunnel env cfg tid sid port socks5 m")
  from start_ssh.hyps have "\<exists>x. map_of (ssh_tunnels m) (tid, sid) = Some x \<and> process x = None"
    by simp
  with start_ssh.IH start_ssh.hyps(2) children_ok_start_ssh [OF _ _ st] plan_ok_start_ssh [OF st]
    no_strays_start_ssh [OF l _ st]
  show ?case by (simp add: st)
next
  case (stop_ssh m tid sid)
  obtain ok m' where st: "stop_ssh_tunnel env cfg tid sid m = (ok, m')"
    by (cases "stop_ssh_tunnel env cfg tid sid m")
  from stop_ssh.IH children_ok_stop_ssh [OF _ st] plan_ok_stop_ssh [OF st]
    no_strays_stop_ssh [OF l _ st]
  show ?case by (simp add: st)
next
  case (monitor m)
  then show ?case by (simp add: invariant_monitor_pass no_strays_monitor_pass [OF l])
next
  case (outside m w)
  then show ?case by (simp add: no_strays_world)
qed

lemma liveness_of_invariant:
  assumes p: "plan_ok cfg m" and c: "children_ok m" and n: "no_strays alive m"
  shows "parent_child_liveness alive m"
proof -
  have ch: "state r = RUNNING \<and> parent_running m (tunnel_id r) \<or>
      state r = STOPPED \<and> process r = None \<and> pid r = None"
    if r: "map_of (ssh_tunnels m) k = Some r" for k r
  proof -
    from keyed_lookup [OF p r] have k: "fst k = tunnel_id r" by (cases k) simp
    from c r have "state r = RUNNING \<and> parent_running m (fst k) \<or>
        state r = STOPPED \<and> process r = None \<and> pid r = None"
      unfolding children_ok_def by blast
    with k show ?thesis by simp
  qed
  have records: "\<forall>k r. map_of (ssh_tunnels m) k = Some r \<longrightarrow>
         (state r = RUNNING \<longrightarrow> parent_running m (tunnel_id r)) \<and>
         (\<not> parent_running m (tunnel_id r) \<longrightarrow>
            (state r = STOPPED \<or> state r = STOPPING \<or> state r = FAILED) \<and>
            process r = None \<and> pid r = None)"
  proof (intro allI impI)
    fix k r
    assume "map_of (ssh_tunnels m) k = Some r"
    from ch [OF this]
    show "(state r = RUNNING \<longrightarrow> parent_running m (tunnel_id r)) \<and>
         (\<not> parent_running m (tunnel_id r) \<longrightarrow>
            (state r = STOPPED \<or> state r = STOPPING \<or> state r = FAILED) \<and>
            process r = None \<and> pid r = None)"
      by auto
  qed
  have world: "\<forall>q. alive (world m) q \<longrightarrow>
         (\<exists>t d. map_of (dnstt_tunnels m) t = Some d \<and> holds d q) \<or>
         (\<exists>k r. map_of (ssh_tunnels m) k = Some r \<and> holds r q \<and> state r = RUNNING \<and>
                parent_running m (tunnel_id r))"
  proof (intro allI impI)
    fix q
    assume "alive (world m) q"
    with n have "held m q" by (simp add: no_strays_def)
    then show "(\<exists>t d. map_of (dnstt_tunnels m) t = Some d \<and> holds d q) \<or>
         (\<exists>k r. map_of (ssh_tunnels m) k = Some r \<and> holds r q \<and> state r = RUNNING \<and>
                parent_running m (tunnel_id r))"
    proof (cases rule: heldE)
      case (dnstt t d)
      then show ?thesis by blast
    next
      case (ssh k r)
      from ch [OF ssh(1)] ssh(2) have "state r = RUNNING \<and> parent_running m (tunnel_id r)"
        by (auto simp: holds_def)
      with ssh show ?thesis by blast
    qed
  qed
  from records world show ?thesis unfolding parent_child_liveness_def by (rule conjI)
qed

section \<open>Parent-child liveness\<close>

text \<open>
  C1, as amended. Take any environment that is lawful about the life of children. In
  every state reached from a new manager by operations that run one at a time
  (\<open>initialize_tunnels\<close> and \<open>start\<close> when no child is alive, \<open>stop\<close>, \<open>stop_dnstt_tunnel\<close>,
  \<open>stop_ssh_tunnel\<close>, monitor passes, the two start methods on a record that holds no
  process, \<open>start_ssh_tunnel\<close> moreover only under a RUNNING parent): every RUNNING SSH
  record has a RUNNING parent; every SSH record whose parent is not RUNNING is STOPPED,
  STOPPING or FAILED and holds no process; and every child process alive in the world is
  held by a DNSTT record or by an SSH record that is RUNNING under a RUNNING parent, so
  none is alive for a child whose parent is not RUNNING.
\<close>

theorem reachable_parent_child_liveness:
  assumes "lawful env alive" "reachable env alive cfg m"
  shows "parent_child_liveness alive m"
proof -
  from assms have "plan_ok cfg m \<and> children_ok m \<and> no_strays alive m"
    by (rule reachable_invariant)
  then show ?thesis using liveness_of_invariant by blast
qed

end
